theory Spec2Isabelle
  imports Main "HOL-Library.Word"
begin

unbundle bit_operations_syntax

section \<open>The exit endpoint of llarp (src/llarp/handlers/exit.cpp)\<close>

text \<open>
  A shallow embedding of \<^verbatim>\<open>llarp::handlers::ExitEndpoint\<close>. Every member function that
  mutates the endpoint takes the endpoint state and returns the new one. What the endpoint
  obtains from its collaborators (the router's clock, the path context, the DNS name codec,
  the session classes of \<^verbatim>\<open>llarp::exit\<close>) is not part of exit.cpp and enters as a
  parameter.
\<close>

subsection \<open>Data\<close>

type_synonym huint32_t = "32 word"
type_synonym llarp_time_t = "64 word"
type_synonym PubKey = "256 word"
type_synonym PathID_t = "128 word"
type_synonym size_t = "64 word"

text \<open>The address of a heap object (what \<^verbatim>\<open>unique_ptr::get\<close> returns).\<close>

type_synonym ptr = nat

type_synonym huint128_t = "128 word"

text \<open>
  \<^verbatim>\<open>IPRange\<close> (src/llarp/net/ip_range.hpp): an address and a mask, both
  \<^verbatim>\<open>huint128_t\<close>.
\<close>

record IPRange =
  addr :: huint128_t
  netmask_bits :: huint128_t

text \<open>
  The functions of net/ip.hpp and net/net_bits.hpp that ip_range.hpp calls:
  \<^verbatim>\<open>net::ExpandV4\<close> and \<^verbatim>\<open>netmask_ipv6_bits\<close>.
\<close>

record NetBits =
  ExpandV4 :: "huint32_t \<Rightarrow> huint128_t"
  netmask_ipv6_bits :: "nat \<Rightarrow> huint128_t"

text \<open>
  \<^verbatim>\<open>Contains(const Addr_t& ip)\<close>:
  \<^verbatim>\<open>return (addr & netmask_bits) == (ip & netmask_bits);\<close>
\<close>

definition Contains :: "IPRange \<Rightarrow> huint128_t \<Rightarrow> bool" where
  "Contains r ip \<longleftrightarrow> (addr r AND netmask_bits r) = (ip AND netmask_bits r)"

text \<open>
  \<^verbatim>\<open>IsV4\<close>: whether the range's address lies in the range
  \<^verbatim>\<open>IPRange{huint128_t{0x0000'ffff'0000'0000UL}, netmask_ipv6_bits(96)}\<close>.
\<close>

definition IsV4 :: "NetBits \<Rightarrow> IPRange \<Rightarrow> bool" where
  "IsV4 nb r \<longleftrightarrow>
     Contains \<lparr>addr = 0x0000ffff00000000, netmask_bits = netmask_ipv6_bits nb 96\<rparr> (addr r)"

text \<open>
  \<^verbatim>\<open>Contains(const huint32_t& ip)\<close>, the overload \<^verbatim>\<open>ShouldHookDNSMessage\<close> calls:
  \<^verbatim>\<open>if (not IsV4()) return false; return Contains(net::ExpandV4(ip));\<close>
\<close>

definition Contains_huint32 :: "NetBits \<Rightarrow> IPRange \<Rightarrow> huint32_t \<Rightarrow> bool" where
  "Contains_huint32 nb r ip \<longleftrightarrow>
     (if \<not> IsV4 nb r then False else Contains r (ExpandV4 nb ip))"

text \<open>A parsed IPv4 packet: its destination in host order and its buffer.\<close>

record IPv4Packet =
  dst :: huint32_t
  Buffer :: "8 word list"

text \<open>
  The endpoint. The unordered maps that are only looked up are partial functions; the
  containers the code iterates over (\<^verbatim>\<open>m_IPActivity\<close>, \<^verbatim>\<open>m_ActiveExits\<close>,
  \<^verbatim>\<open>m_SNodeSessions\<close>) are association lists in iteration order. \<^verbatim>\<open>m_ActiveExits\<close> is a
  multimap: a key may occur more than once, and every entry owns one session object,
  stored with its address. \<^verbatim>\<open>m_ChosenExits\<close> maps a key to a raw pointer: \<open>None\<close> is
  \<^verbatim>\<open>nullptr\<close>. The session types \<open>'e\<close> (\<^verbatim>\<open>exit::Endpoint\<close>) and \<open>'s\<close>
  (\<^verbatim>\<open>exit::SNodeSession\<close>) are those of the link layer.
\<close>

record ('e, 's) ExitEndpoint =
  m_PermitExit :: bool
  m_IfAddr :: huint32_t
  m_OurRange :: IPRange
  m_NextAddr :: huint32_t
  m_HigestAddr :: huint32_t
  m_KeyToIP :: "PubKey \<rightharpoonup> huint32_t"
  m_IPToKey :: "huint32_t \<rightharpoonup> PubKey"
  m_IPActivity :: "(huint32_t \<times> llarp_time_t) list"
  m_SNodeKeys :: "PubKey set"
  m_SNodeSessions :: "(PubKey \<times> 's) list"
  m_ActiveExits :: "(PubKey \<times> ptr \<times> 'e) list"
  m_ChosenExits :: "PubKey \<rightharpoonup> ptr option"
  m_Paths :: "PathID_t \<rightharpoonup> PubKey"
  m_InetToNetwork :: "IPv4Packet list"

text \<open>
  The member functions of \<^verbatim>\<open>exit::Endpoint\<close> and \<^verbatim>\<open>exit::SNodeSession\<close> that exit.cpp
  calls, their constructors and the constant \<^verbatim>\<open>routing::ExitPadSize\<close>.
  \<open>ep_new pk path rewriteSource ip now\<close> is
  \<^verbatim>\<open>Endpoint(pk, path, !wantInternet, ip, this)\<close> built when the parent's clock reads
  \<open>now\<close>; \<open>sn_new r ip\<close> is the \<^verbatim>\<open>SNodeSession\<close> for router \<open>r\<close> whose packets are
  written back with source \<open>ip\<close>.
\<close>

record ('e, 's) LinkLayer =
  ep_new :: "PubKey \<Rightarrow> PathID_t \<Rightarrow> bool \<Rightarrow> huint32_t \<Rightarrow> llarp_time_t \<Rightarrow> 'e"
  createdAt :: "'e \<Rightarrow> llarp_time_t"
  ep_IsExpired :: "'e \<Rightarrow> llarp_time_t \<Rightarrow> bool"
  ep_LooksDead :: "'e \<Rightarrow> llarp_time_t \<Rightarrow> bool"
  ep_Tick :: "llarp_time_t \<Rightarrow> 'e \<Rightarrow> 'e"
  ep_Flush :: "'e \<Rightarrow> bool \<times> 'e"
  ep_QueueInboundTraffic :: "8 word list \<Rightarrow> 'e \<Rightarrow> bool \<times> 'e"
  sn_new :: "PubKey \<Rightarrow> huint32_t \<Rightarrow> 's"
  sn_IsExpired :: "'s \<Rightarrow> llarp_time_t \<Rightarrow> bool"
  sn_Tick :: "llarp_time_t \<Rightarrow> 's \<Rightarrow> 's"
  sn_Flush :: "'s \<Rightarrow> bool \<times> 's"
  sn_QueueUpstreamTraffic :: "IPv4Packet \<Rightarrow> nat \<Rightarrow> 's \<Rightarrow> bool \<times> 's"
  ExitPadSize :: nat

subsection \<open>Container primitives\<close>

text \<open>
  \<^verbatim>\<open>m[k]\<close> on a map: the stored value, or a value-initialised one that is inserted
  first.
\<close>

definition index_default :: "('k \<rightharpoonup> 'v) \<Rightarrow> 'k \<Rightarrow> 'v \<Rightarrow> 'v \<times> ('k \<rightharpoonup> 'v)" where
  "index_default m k d = (case m k of Some v \<Rightarrow> (v, m) | None \<Rightarrow> (d, m(k \<mapsto> d)))"

text \<open>
  \<^verbatim>\<open>m[k] = v\<close> on an iterated map: an existing entry is overwritten where it stands, a
  new one joins the container (here at the end; an unordered map does not say where).
\<close>

fun assign :: "('k \<times> 'v) list \<Rightarrow> 'k \<Rightarrow> 'v \<Rightarrow> ('k \<times> 'v) list" where
  "assign [] k v = [(k, v)]"
| "assign ((k', v') # m) k v = (if k' = k then (k, v) # m else (k', v') # assign m k v)"

text \<open>\<^verbatim>\<open>std::numeric_limits<llarp_time_t>::max()\<close>\<close>

definition llarp_time_max :: llarp_time_t where
  "llarp_time_max = - 1"

subsection \<open>Address pool and identity map\<close>

definition HasLocalMappedAddrFor :: "('e, 's) ExitEndpoint \<Rightarrow> PubKey \<Rightarrow> bool" where
  "HasLocalMappedAddrFor s pk \<longleftrightarrow> m_KeyToIP s pk \<noteq> None"

text \<open>\<^verbatim>\<open>m_IPActivity[ip] = Router()->Now();\<close>\<close>

definition MarkIPActive ::
  "('e, 's) ExitEndpoint \<Rightarrow> huint32_t \<Rightarrow> llarp_time_t \<Rightarrow> ('e, 's) ExitEndpoint" where
  "MarkIPActive s ip now = s\<lparr>m_IPActivity := assign (m_IPActivity s) ip now\<rparr>"

text \<open>
  \<^verbatim>\<open>KickIdentOffExit\<close>: \<^verbatim>\<open>m_KeyToIP[pk]\<close> is read with the indexing operator, then the key,
  the address read and every active exit of the key are erased.
\<close>

definition KickIdentOffExit :: "('e, 's) ExitEndpoint \<Rightarrow> PubKey \<Rightarrow> ('e, 's) ExitEndpoint" where
  "KickIdentOffExit s pk =
     (let (ip, k2i) = index_default (m_KeyToIP s) pk 0
      in s\<lparr>m_KeyToIP := k2i(pk := None),
            m_IPToKey := (m_IPToKey s)(ip := None),
            m_ActiveExits := filter (\<lambda>(k, _). k \<noteq> pk) (m_ActiveExits s)\<rparr>)"

text \<open>
  The search loop of \<^verbatim>\<open>AllocateNewAddress\<close>: \<open>(found, min)\<close> is replaced by an entry
  whose time is strictly below \<open>min\<close>.
\<close>

fun oldest ::
  "(huint32_t \<times> llarp_time_t) list \<Rightarrow> huint32_t \<times> llarp_time_t \<Rightarrow> huint32_t \<times> llarp_time_t" where
  "oldest [] acc = acc"
| "oldest ((ip, t) # rest) (found, mn) = oldest rest (if t < mn then (ip, t) else (found, mn))"

definition AllocateNewAddress ::
  "('e, 's) ExitEndpoint \<Rightarrow> huint32_t \<times> ('e, 's) ExitEndpoint" where
  "AllocateNewAddress s =
     (if m_NextAddr s < m_HigestAddr s
      then (m_NextAddr s + 1, s\<lparr>m_NextAddr := m_NextAddr s + 1\<rparr>)
      else
        (let found = fst (oldest (m_IPActivity s) (0, llarp_time_max));
             (pk, i2k) = index_default (m_IPToKey s) found 0
         in (found, KickIdentOffExit (s\<lparr>m_IPToKey := i2k\<rparr>) pk)))"

text \<open>
  \<^verbatim>\<open>GetIPForIdent\<close>. The two early returns are the failed \<^verbatim>\<open>emplace\<close> calls; they skip
  \<^verbatim>\<open>MarkIPActive\<close>.
\<close>

definition GetIPForIdent ::
  "('e, 's) ExitEndpoint \<Rightarrow> PubKey \<Rightarrow> llarp_time_t \<Rightarrow> huint32_t \<times> ('e, 's) ExitEndpoint" where
  "GetIPForIdent s pk now =
     (if \<not> HasLocalMappedAddrFor s pk
      then
        (let (found, s1) = AllocateNewAddress s
         in if m_KeyToIP s1 pk \<noteq> None then (found, s1)
            else
              (let s2 = s1\<lparr>m_KeyToIP := (m_KeyToIP s1)(pk \<mapsto> found)\<rparr>
               in if m_IPToKey s2 found \<noteq> None then (found, s2)
                  else (found,
                        MarkIPActive (s2\<lparr>m_IPToKey := (m_IPToKey s2)(found \<mapsto> pk)\<rparr>) found now)))
      else
        (let (found, k2i) = index_default (m_KeyToIP s) pk 0
         in (found, MarkIPActive (s\<lparr>m_KeyToIP := k2i\<rparr>) found now)))"

text \<open>
  The \<^verbatim>\<open>ifaddr\<close> branch of \<^verbatim>\<open>SetOption\<close>, after the option string is parsed: \<open>ifaddr\<close> is
  \<^verbatim>\<open>llarp::Addr(host_str).xtohl()\<close> and \<open>nm\<close> is \<^verbatim>\<open>netmask_ipv4_bits(m_Tun.netmask)\<close>.
  Both are 32-bit values and go into the 128-bit fields of \<^verbatim>\<open>m_OurRange\<close> as they are,
  without \<^verbatim>\<open>net::ExpandV4\<close>. \<^verbatim>\<open>m_HigestAddr\<close> is 32 bits wide, so of
  \<^verbatim>\<open>m_IfAddr | (~m_OurRange.netmask_bits)\<close> it holds the low 32 bits, which are those of
  \<open>ifaddr OR NOT nm\<close>.
\<close>

definition SetOption_ifaddr ::
  "('e, 's) ExitEndpoint \<Rightarrow> huint32_t \<Rightarrow> huint32_t \<Rightarrow> ('e, 's) ExitEndpoint" where
  "SetOption_ifaddr s ifaddr nm =
     s\<lparr>m_IfAddr := ifaddr,
       m_OurRange := \<lparr>addr = ucast ifaddr, netmask_bits = ucast nm\<rparr>,
       m_NextAddr := ifaddr,
       m_HigestAddr := ifaddr OR (NOT nm)\<rparr>"

text \<open>
  \<^verbatim>\<open>ObtainServiceNodeIP\<close>. \<^verbatim>\<open>m_SNodeSessions.insert\<close> keeps an entry that is already
  there.
\<close>

definition ObtainServiceNodeIP ::
  "('e, 's) LinkLayer \<Rightarrow> ('e, 's) ExitEndpoint \<Rightarrow> PubKey \<Rightarrow> llarp_time_t \<Rightarrow>
   huint32_t \<times> ('e, 's) ExitEndpoint" where
  "ObtainServiceNodeIP ll s other now =
     (let (ip, s1) = GetIPForIdent s other now
      in if other \<notin> m_SNodeKeys s1
         then (ip, s1\<lparr>m_SNodeKeys := insert other (m_SNodeKeys s1),
                       m_SNodeSessions :=
                         (if map_of (m_SNodeSessions s1) other \<noteq> None then m_SNodeSessions s1
                          else m_SNodeSessions s1 @ [(other, sn_new ll other ip)])\<rparr>)
         else (ip, s1))"

text \<open>
  \<^verbatim>\<open>AllocateNewExit\<close>. \<open>prevIsRouter\<close> is the answer of
  \<^verbatim>\<open>Router()->paths.TransitHopPreviousIsRouter(path, pk)\<close>, \<open>p\<close> the address of the
  session object \<^verbatim>\<open>make_unique\<close> allocates.
\<close>

definition AllocateNewExit ::
  "('e, 's) LinkLayer \<Rightarrow> ('e, 's) ExitEndpoint \<Rightarrow> PubKey \<Rightarrow> PathID_t \<Rightarrow> bool \<Rightarrow> bool \<Rightarrow>
   llarp_time_t \<Rightarrow> ptr \<Rightarrow> bool \<times> ('e, 's) ExitEndpoint" where
  "AllocateNewExit ll s pk path wantInternet prevIsRouter now p =
     (if wantInternet \<and> \<not> m_PermitExit s then (False, s)
      else
        (let (ip, s1) = GetIPForIdent s pk now;
             s2 = (if prevIsRouter then s1\<lparr>m_SNodeKeys := insert pk (m_SNodeKeys s1)\<rparr> else s1);
             s3 = s2\<lparr>m_ActiveExits :=
                      m_ActiveExits s2 @ [(pk, p, ep_new ll pk path (\<not> wantInternet) ip now)]\<rparr>;
             s4 = s3\<lparr>m_Paths := (m_Paths s3)(path \<mapsto> pk)\<rparr>
         in (HasLocalMappedAddrFor s4 pk, s4)))"

subsection \<open>Tick\<close>

text \<open>Following a raw session pointer: the object of \<^verbatim>\<open>m_ActiveExits\<close> at that address.\<close>

definition deref :: "(PubKey \<times> ptr \<times> 'e) list \<Rightarrow> ptr \<Rightarrow> 'e option" where
  "deref xs p = map_of (map snd xs) p"

text \<open>
  The second loop of \<^verbatim>\<open>Tick\<close> over \<^verbatim>\<open>m_ActiveExits\<close>: \<open>seen\<close> are the entries already
  visited (and ticked), \<open>todo\<close> those from the iterator on. \<open>None\<close> is a read through a
  null or dangling pointer.
\<close>

fun pick_chosen ::
  "('e, 's) LinkLayer \<Rightarrow> llarp_time_t \<Rightarrow> (PubKey \<times> ptr \<times> 'e) list \<Rightarrow> (PubKey \<times> ptr \<times> 'e) list \<Rightarrow>
   (PubKey \<rightharpoonup> ptr option) \<Rightarrow> ((PubKey \<rightharpoonup> ptr option) \<times> (PubKey \<times> ptr \<times> 'e) list) option" where
  "pick_chosen ll now seen [] ch = Some (ch, seen)"
| "pick_chosen ll now seen ((k, p, e) # todo) ch =
     (case ch k of
        Some q \<Rightarrow>
          (case q of
             None \<Rightarrow> None
           | Some q' \<Rightarrow>
               (case deref (seen @ (k, p, e) # todo) q' of
                  None \<Rightarrow> None
                | Some c \<Rightarrow>
                    pick_chosen ll now (seen @ [(k, p, ep_Tick ll now e)]) todo
                      (if createdAt ll c < createdAt ll e
                       then (if \<not> ep_LooksDead ll e now then ch(k \<mapsto> Some p) else ch)
                       else ch)))
      | None \<Rightarrow>
          pick_chosen ll now (seen @ [(k, p, ep_Tick ll now e)]) todo
            (if \<not> ep_LooksDead ll e now then ch(k \<mapsto> Some p) else ch))"

definition Tick ::
  "('e, 's) LinkLayer \<Rightarrow> ('e, 's) ExitEndpoint \<Rightarrow> llarp_time_t \<Rightarrow> ('e, 's) ExitEndpoint option" where
  "Tick ll s now =
     (let s1 = s\<lparr>m_SNodeSessions :=
                  filter (\<lambda>(k, sn). \<not> sn_IsExpired ll sn now) (m_SNodeSessions s)\<rparr>;
          s2 = s1\<lparr>m_ActiveExits :=
                   filter (\<lambda>(k, p, e). \<not> ep_IsExpired ll e now) (m_ActiveExits s1)\<rparr>
      in case pick_chosen ll now [] (m_ActiveExits s2) Map.empty of
           None \<Rightarrow> None
         | Some (ch, exits) \<Rightarrow> Some (s2\<lparr>m_ActiveExits := exits, m_ChosenExits := ch\<rparr>))"

subsection \<open>Flush\<close>

text \<open>What \<^verbatim>\<open>Flush\<close> does with a packet or a session: a hand-over or a \<^verbatim>\<open>LogWarn\<close> line.\<close>

datatype event =
    Warn_no_session huint32_t
  | To_snode PubKey
  | Warn_no_working_endpoints PubKey
  | To_exit PubKey ptr
  | Warn_overloaded PubKey
  | Warn_exit_dropped_packets PubKey
  | Warn_snode_flush_failed PubKey

text \<open>Writing through a raw session pointer.\<close>

fun store :: "(PubKey \<times> ptr \<times> 'e) list \<Rightarrow> ptr \<Rightarrow> 'e \<Rightarrow> (PubKey \<times> ptr \<times> 'e) list" where
  "store [] p e' = []"
| "store ((k, a, e) # xs) p e' = (if a = p then (k, a, e') # xs else (k, a, e) # store xs p e')"

text \<open>
  The visitor \<^verbatim>\<open>Flush\<close> hands to \<^verbatim>\<open>m_InetToNetwork.Process\<close>, in its two stages. First the
  service-node stage: if the key is in \<^verbatim>\<open>m_SNodeKeys\<close> and has an entry in
  \<^verbatim>\<open>m_SNodeSessions\<close>, the packet is offered to that session; the result says whether it
  was taken.
\<close>

definition snode_stage ::
  "('e, 's) LinkLayer \<Rightarrow> ('e, 's) ExitEndpoint \<Rightarrow> IPv4Packet \<Rightarrow> PubKey \<Rightarrow>
   bool \<times> ('e, 's) ExitEndpoint" where
  "snode_stage ll s pkt pk =
     (if pk \<in> m_SNodeKeys s
      then (case map_of (m_SNodeSessions s) pk of
              None \<Rightarrow> (False, s)
            | Some sn \<Rightarrow>
                (let (ok, sn') = sn_QueueUpstreamTraffic ll pkt (ExitPadSize ll) sn
                 in (ok, s\<lparr>m_SNodeSessions := assign (m_SNodeSessions s) pk sn'\<rparr>)))
      else (False, s))"

text \<open>
  Then the exit stage: \<^verbatim>\<open>m_ChosenExits[pk]\<close> is read with the indexing operator and, if it
  is not null, the packet is offered to the session it points to. \<open>None\<close> is a call
  through a dangling pointer.
\<close>

definition exit_stage ::
  "('e, 's) LinkLayer \<Rightarrow> ('e, 's) ExitEndpoint \<Rightarrow> IPv4Packet \<Rightarrow> PubKey \<Rightarrow>
   (event \<times> ('e, 's) ExitEndpoint) option" where
  "exit_stage ll s pkt pk =
     (let (ep, ch) = index_default (m_ChosenExits s) pk None;
          s2 = s\<lparr>m_ChosenExits := ch\<rparr>
      in case ep of
           None \<Rightarrow> Some (Warn_no_working_endpoints pk, s2)
         | Some p \<Rightarrow>
             (case deref (m_ActiveExits s2) p of
                None \<Rightarrow> None
              | Some e \<Rightarrow>
                  (let (ok, e') = ep_QueueInboundTraffic ll (Buffer pkt) e
                   in Some (if ok then To_exit pk p else Warn_overloaded pk,
                            s2\<lparr>m_ActiveExits := store (m_ActiveExits s2) p e'\<rparr>))))"

definition Flush_pkt ::
  "('e, 's) LinkLayer \<Rightarrow> ('e, 's) ExitEndpoint \<Rightarrow> IPv4Packet \<Rightarrow>
   (event \<times> ('e, 's) ExitEndpoint) option" where
  "Flush_pkt ll s pkt =
     (case m_IPToKey s (dst pkt) of
        None \<Rightarrow> Some (Warn_no_session (dst pkt), s)
      | Some pk \<Rightarrow>
          (let (sent, s1) = snode_stage ll s pkt pk
           in if sent then Some (To_snode pk, s1) else exit_stage ll s1 pkt pk))"

text \<open>\<^verbatim>\<open>Process\<close> visits the queued packets in order.\<close>

fun Process ::
  "('e, 's) LinkLayer \<Rightarrow> ('e, 's) ExitEndpoint \<Rightarrow> IPv4Packet list \<Rightarrow>
   (event list \<times> ('e, 's) ExitEndpoint) option" where
  "Process ll s [] = Some ([], s)"
| "Process ll s (pkt # pkts) =
     (case Flush_pkt ll s pkt of
        None \<Rightarrow> None
      | Some (ev, s') \<Rightarrow>
          (case Process ll s' pkts of
             None \<Rightarrow> None
           | Some (evs, s'') \<Rightarrow> Some (ev # evs, s'')))"

fun FlushExits ::
  "('e, 's) LinkLayer \<Rightarrow> (PubKey \<times> ptr \<times> 'e) list \<Rightarrow> event list \<times> (PubKey \<times> ptr \<times> 'e) list" where
  "FlushExits ll [] = ([], [])"
| "FlushExits ll ((k, p, e) # xs) =
     (let (ok, e') = ep_Flush ll e; (ws, ys) = FlushExits ll xs
      in ((if ok then [] else [Warn_exit_dropped_packets k]) @ ws, (k, p, e') # ys))"

fun FlushSNodes ::
  "('e, 's) LinkLayer \<Rightarrow> (PubKey \<times> 's) list \<Rightarrow> event list \<times> (PubKey \<times> 's) list" where
  "FlushSNodes ll [] = ([], [])"
| "FlushSNodes ll ((k, sn) # xs) =
     (let (ok, sn') = sn_Flush ll sn; (ws, ys) = FlushSNodes ll xs
      in ((if ok then [] else [Warn_snode_flush_failed k]) @ ws, (k, sn') # ys))"

definition Flush ::
  "('e, 's) LinkLayer \<Rightarrow> ('e, 's) ExitEndpoint \<Rightarrow> (event list \<times> ('e, 's) ExitEndpoint) option" where
  "Flush ll s =
     (case Process ll s (m_InetToNetwork s) of
        None \<Rightarrow> None
      | Some (evs, s1) \<Rightarrow>
          (let s2 = s1\<lparr>m_InetToNetwork := []\<rparr>;
               (w1, exits) = FlushExits ll (m_ActiveExits s2);
               (w2, snodes) = FlushSNodes ll (m_SNodeSessions s2)
           in Some (evs @ w1 @ w2, s2\<lparr>m_ActiveExits := exits, m_SNodeSessions := snodes\<rparr>)))"

subsection \<open>DNS\<close>

text \<open>
  A DNS message as exit.cpp uses it: the questions, and the replies added to it. The record
  type codes are those of dns.hpp (RFC 1035: A is 1, PTR is 12). \<open>AReply name ttl\<close> is
  \<^verbatim>\<open>AddAReply(name, ttl)\<close>, with \<open>None\<close> for the default argument.
\<close>

record Question =
  qname :: string
  qtype :: "16 word"

datatype reply = AReply string "32 word option" | INReply huint32_t | NXReply

record Message =
  questions :: "Question list"
  replies :: "reply list"

definition qTypeA :: "16 word" where
  "qTypeA = 1"

definition qTypePTR :: "16 word" where
  "qTypePTR = 12"

text \<open>
  The name functions of the DNS and router-id code: \<^verbatim>\<open>dns::DecodePTR\<close>,
  \<^verbatim>\<open>RouterID::FromString\<close> and \<^verbatim>\<open>RouterID::ToString\<close>.
\<close>

record Names =
  DecodePTR :: "string \<Rightarrow> huint32_t option"
  FromString :: "string \<Rightarrow> PubKey option"
  ToString :: "PubKey \<Rightarrow> string"

text \<open>
  \<^verbatim>\<open>std::string::find\<close>: the position of the first occurrence, or \<^verbatim>\<open>npos\<close>, as a
  \<^verbatim>\<open>size_t\<close>.
\<close>

fun first_occurrence :: "string \<Rightarrow> string \<Rightarrow> nat option" where
  "first_occurrence [] needle = (if needle = [] then Some 0 else None)"
| "first_occurrence (c # hay) needle =
     (if take (length needle) (c # hay) = needle then Some 0
      else map_option Suc (first_occurrence hay needle))"

definition npos :: size_t where
  "npos = - 1"

definition find_str :: "string \<Rightarrow> string \<Rightarrow> size_t" where
  "find_str hay needle = (case first_occurrence hay needle of None \<Rightarrow> npos | Some i \<Rightarrow> of_nat i)"

definition ShouldHookDNSMessage ::
  "NetBits \<Rightarrow> Names \<Rightarrow> ('e, 's) ExitEndpoint \<Rightarrow> Message \<Rightarrow> bool" where
  "ShouldHookDNSMessage nb nm s msg =
     (case questions msg of
        [] \<Rightarrow> False
      | q # _ \<Rightarrow>
          if qtype q = qTypePTR
          then (case DecodePTR nm (qname q) of
                  None \<Rightarrow> False
                | Some ip \<Rightarrow> Contains_huint32 nb (m_OurRange s) ip)
          else if qtype q = qTypeA
          then find_str (qname q) ''.snode.'' = of_nat (length (qname q)) - 7
          else False)"

text \<open>
  \<^verbatim>\<open>HandleHookedDNSMessage\<close>: the return value, the message passed to \<^verbatim>\<open>reply\<close> (if it
  is called) and the endpoint. \<open>us\<close> is \<^verbatim>\<open>Router()->pubkey()\<close>. The outer \<open>None\<close> is
  \<^verbatim>\<open>msg.questions[0]\<close> on a message without questions.
\<close>

definition HandleHookedDNSMessage ::
  "('e, 's) LinkLayer \<Rightarrow> Names \<Rightarrow> PubKey \<Rightarrow> ('e, 's) ExitEndpoint \<Rightarrow> Message \<Rightarrow> llarp_time_t \<Rightarrow>
   (bool \<times> Message option \<times> ('e, 's) ExitEndpoint) option" where
  "HandleHookedDNSMessage ll nm us s msg now =
     (case questions msg of
        [] \<Rightarrow> None
      | q # _ \<Rightarrow>
          if qtype q = qTypePTR
          then (case DecodePTR nm (qname q) of
                  None \<Rightarrow> Some (False, None, s)
                | Some ip \<Rightarrow>
                    if ip = m_IfAddr s
                    then Some (True, Some (msg\<lparr>replies := replies msg @ [AReply (ToString nm us) (Some 300)]\<rparr>), s)
                    else
                      (case m_IPToKey s ip of
                         None \<Rightarrow> Some (True, Some (msg\<lparr>replies := replies msg @ [NXReply]\<rparr>), s)
                       | Some them \<Rightarrow>
                           if them \<in> m_SNodeKeys s
                           then Some (True, Some (msg\<lparr>replies := replies msg @ [AReply (ToString nm them) None]\<rparr>), s)
                           else Some (True, Some (msg\<lparr>replies := replies msg @ [NXReply]\<rparr>), s)))
          else if qtype q = qTypeA
          then (case FromString nm (qname q) of
                  None \<Rightarrow> Some (True, Some (msg\<lparr>replies := replies msg @ [NXReply]\<rparr>), s)
                | Some r \<Rightarrow>
                    if r \<notin> m_SNodeKeys s
                    then (let (ip, s') = ObtainServiceNodeIP ll s r now
                          in Some (True, Some (msg\<lparr>replies := replies msg @ [INReply ip]\<rparr>), s'))
                    else
                      (case m_KeyToIP s r of
                         Some ip \<Rightarrow> Some (True, Some (msg\<lparr>replies := replies msg @ [INReply ip]\<rparr>), s)
                       | None \<Rightarrow> Some (True, Some (msg\<lparr>replies := replies msg @ [NXReply]\<rparr>), s)))
          else Some (True, Some msg, s))"

subsection \<open>Sequences of calls\<close>

text \<open>The public operations on the identity map, with what each call gets from outside.\<close>

datatype im_call =
    Call_GetIPForIdent PubKey llarp_time_t
  | Call_AllocateNewExit PubKey PathID_t bool bool llarp_time_t ptr
  | Call_ObtainServiceNodeIP PubKey llarp_time_t
  | Call_KickIdentOffExit PubKey

fun im_step :: "('e, 's) LinkLayer \<Rightarrow> ('e, 's) ExitEndpoint \<Rightarrow> im_call \<Rightarrow> ('e, 's) ExitEndpoint" where
  "im_step ll s (Call_GetIPForIdent pk now) = snd (GetIPForIdent s pk now)"
| "im_step ll s (Call_AllocateNewExit pk path wantInternet prevIsRouter now p) =
     snd (AllocateNewExit ll s pk path wantInternet prevIsRouter now p)"
| "im_step ll s (Call_ObtainServiceNodeIP pk now) = snd (ObtainServiceNodeIP ll s pk now)"
| "im_step ll s (Call_KickIdentOffExit pk) = KickIdentOffExit s pk"

definition im_run ::
  "('e, 's) LinkLayer \<Rightarrow> ('e, 's) ExitEndpoint \<Rightarrow> im_call list \<Rightarrow> ('e, 's) ExitEndpoint" where
  "im_run ll s calls = foldl (im_step ll) s calls"

text \<open>The time a call reads from the router's clock, if it reads it.\<close>

fun call_time :: "im_call \<Rightarrow> llarp_time_t option" where
  "call_time (Call_GetIPForIdent pk now) = Some now"
| "call_time (Call_AllocateNewExit pk path wantInternet prevIsRouter now p) = Some now"
| "call_time (Call_ObtainServiceNodeIP pk now) = Some now"
| "call_time (Call_KickIdentOffExit pk) = None"

text \<open>
  The endpoint as its constructor leaves the containers: all empty.
\<close>

definition constructed :: "('e, 's) ExitEndpoint \<Rightarrow> bool" where
  "constructed s \<longleftrightarrow>
     m_KeyToIP s = Map.empty \<and> m_IPToKey s = Map.empty \<and> m_IPActivity s = [] \<and>
     m_SNodeKeys s = {} \<and> m_SNodeSessions s = [] \<and> m_ActiveExits s = [] \<and>
     m_ChosenExits s = Map.empty \<and> m_Paths s = Map.empty \<and> m_InetToNetwork s = []"

subsection \<open>A concrete link layer\<close>

text \<open>
  Sessions that carry their own answers: when they were created, whether they are expired,
  look dead or accept traffic, and how often they were ticked.
\<close>

record simple_ep =
  se_createdAt :: llarp_time_t
  se_expired :: bool
  se_dead :: bool
  se_accepts :: bool
  se_ticks :: nat

record simple_sn =
  ss_expired :: bool
  ss_accepts :: bool
  ss_ticks :: nat

definition simple_ll :: "(simple_ep, simple_sn) LinkLayer" where
  "simple_ll =
     \<lparr>ep_new = (\<lambda>pk path rewriteSource ip now.
        \<lparr>se_createdAt = now, se_expired = False, se_dead = False, se_accepts = True, se_ticks = 0\<rparr>),
      createdAt = se_createdAt,
      ep_IsExpired = (\<lambda>e now. se_expired e),
      ep_LooksDead = (\<lambda>e now. se_dead e),
      ep_Tick = (\<lambda>now e. e\<lparr>se_ticks := Suc (se_ticks e)\<rparr>),
      ep_Flush = (\<lambda>e. (True, e)),
      ep_QueueInboundTraffic = (\<lambda>buf e. (se_accepts e, e)),
      sn_new = (\<lambda>r ip. \<lparr>ss_expired = False, ss_accepts = True, ss_ticks = 0\<rparr>),
      sn_IsExpired = (\<lambda>sn now. ss_expired sn),
      sn_Tick = (\<lambda>now sn. sn\<lparr>ss_ticks := Suc (ss_ticks sn)\<rparr>),
      sn_Flush = (\<lambda>sn. (True, sn)),
      sn_QueueUpstreamTraffic = (\<lambda>pkt pad sn. (ss_accepts sn, sn)),
      ExitPadSize = 0\<rparr>"

text \<open>A freshly constructed endpoint, and the same configured with \<^verbatim>\<open>ifaddr=10.0.0.1/30\<close>.\<close>

definition fresh_endpoint :: "(simple_ep, simple_sn) ExitEndpoint" where
  "fresh_endpoint =
     \<lparr>m_PermitExit = False, m_IfAddr = 0, m_OurRange = \<lparr>addr = 0, netmask_bits = 0\<rparr>,
      m_NextAddr = 0, m_HigestAddr = 0, m_KeyToIP = Map.empty, m_IPToKey = Map.empty,
      m_IPActivity = [], m_SNodeKeys = {}, m_SNodeSessions = [], m_ActiveExits = [],
      m_ChosenExits = Map.empty, m_Paths = Map.empty, m_InetToNetwork = []\<rparr>"

definition slash30 :: "(simple_ep, simple_sn) ExitEndpoint" where
  "slash30 = SetOption_ifaddr fresh_endpoint 0x0A000001 0xFFFFFFFC"

text \<open>
  Two clients on the \<^verbatim>\<open>/30\<close>: keys 1 and 2 ask for inbound-only sessions at times 10 and
  20, which uses up the two addresses after the gateway's.
\<close>

definition two_clients :: "(simple_ep, simple_sn) ExitEndpoint" where
  "two_clients =
     im_run simple_ll slash30
       [Call_AllocateNewExit 1 1 False False 10 1, Call_AllocateNewExit 2 2 False False 20 2]"

text \<open>A name codec that knows one reverse name and one router name, and two queries.\<close>

definition simple_names :: Names where
  "simple_names =
     \<lparr>DecodePTR = (\<lambda>n. if n = ''2.0.0.10.in-addr.arpa.'' then Some 0x0A000002 else None),
      FromString = (\<lambda>n. if n = ''router7.snode.'' then Some 7 else None),
      ToString = (\<lambda>k. ''router.snode'')\<rparr>"

definition snode_question :: Question where
  "snode_question = \<lparr>qname = ''router7.snode.'', qtype = qTypeA\<rparr>"

definition snode_query :: Message where
  "snode_query = \<lparr>questions = [snode_question], replies = []\<rparr>"

definition bad_question :: Question where
  "bad_question = \<lparr>qname = ''nobody.snode.'', qtype = qTypeA\<rparr>"

definition bad_query :: Message where
  "bad_query = \<lparr>questions = [bad_question], replies = []\<rparr>"


text \<open>
  Two more \<^verbatim>\<open>A\<close> queries: a router name without the final dot, and a six-character name
  outside \<^verbatim>\<open>.snode\<close>.
\<close>

definition undotted_query :: Message where
  "undotted_query = \<lparr>questions = [\<lparr>qname = ''router7'' @ ''.snode'', qtype = qTypeA\<rparr>], replies = []\<rparr>"

definition short_query :: Message where
  "short_query = \<lparr>questions = [\<lparr>qname = ''a.com.'', qtype = qTypeA\<rparr>], replies = []\<rparr>"

text \<open>
  The two functions of \<open>NetBits\<close> with the values their names say: the IPv4-mapped
  IPv6 address of an IPv4 address, and the mask with the highest \<open>n\<close> of 128 bits set.
\<close>

definition simple_nb :: NetBits where
  "simple_nb =
     \<lparr>ExpandV4 = (\<lambda>ip. 0x0000ffff00000000 OR ucast ip),
      netmask_ipv6_bits = (\<lambda>n. NOT (mask (128 - n)))\<rparr>"

text \<open>
  A \<^verbatim>\<open>PTR\<close> query for 10.0.0.2, and the \<^verbatim>\<open>/30\<close> with \<^verbatim>\<open>m_OurRange\<close> holding the
  expanded interface address and the IPv6 mask of the same prefix.
\<close>

definition ptr_query :: Message where
  "ptr_query =
     \<lparr>questions = [\<lparr>qname = ''2.0.0.10.in-addr.arpa.'', qtype = qTypePTR\<rparr>], replies = []\<rparr>"

definition expanded_slash30 :: "(simple_ep, simple_sn) ExitEndpoint" where
  "expanded_slash30 =
     slash30\<lparr>m_OurRange :=
       \<lparr>addr = ExpandV4 simple_nb 0x0A000001, netmask_bits = netmask_ipv6_bits simple_nb 126\<rparr>\<rparr>"


text \<open>
  The addresses \<^verbatim>\<open>AllocateNewAddress\<close> returns during a sequence of calls:
  \<^verbatim>\<open>GetIPForIdent\<close> reaches it for a key that is not mapped, and the other two operations
  go through \<^verbatim>\<open>GetIPForIdent\<close>.
\<close>

fun im_allocated :: "('e, 's) ExitEndpoint \<Rightarrow> im_call \<Rightarrow> huint32_t list" where
  "im_allocated s (Call_GetIPForIdent pk now) =
     (if HasLocalMappedAddrFor s pk then [] else [fst (AllocateNewAddress s)])"
| "im_allocated s (Call_AllocateNewExit pk path wantInternet prevIsRouter now p) =
     (if wantInternet \<and> \<not> m_PermitExit s then []
      else if HasLocalMappedAddrFor s pk then [] else [fst (AllocateNewAddress s)])"
| "im_allocated s (Call_ObtainServiceNodeIP pk now) =
     (if HasLocalMappedAddrFor s pk then [] else [fst (AllocateNewAddress s)])"
| "im_allocated s (Call_KickIdentOffExit pk) = []"

fun allocations ::
  "('e, 's) LinkLayer \<Rightarrow> ('e, 's) ExitEndpoint \<Rightarrow> im_call list \<Rightarrow> huint32_t list" where
  "allocations ll s [] = []"
| "allocations ll s (c # cs) = im_allocated s c @ allocations ll (im_step ll s c) cs"

text \<open>
  No address in use lies above \<^verbatim>\<open>m_NextAddr\<close>, and \<^verbatim>\<open>m_NextAddr\<close> not below the
  gateway's address.
\<close>

definition pool_inv :: "('e, 's) ExitEndpoint \<Rightarrow> bool" where
  "pool_inv s \<longleftrightarrow>
     m_IfAddr s \<le> m_NextAddr s \<and>
     (\<forall>ip \<in> fst ` set (m_IPActivity s) \<union> ran (m_KeyToIP s) \<union> dom (m_IPToKey s).
        ip \<le> m_NextAddr s)"

text \<open>
  Every mapped address has an activity time, and no activity time is the largest value of
  \<^verbatim>\<open>llarp_time_t\<close>.
\<close>

definition activity_inv :: "('e, 's) ExitEndpoint \<Rightarrow> bool" where
  "activity_inv s \<longleftrightarrow>
     ran (m_KeyToIP s) \<subseteq> fst ` set (m_IPActivity s) \<and>
     (\<forall>(ip, t) \<in> set (m_IPActivity s). t < llarp_time_max)"

text \<open>
  The full \<^verbatim>\<open>/30\<close> with both addresses last active at time 5, in the two orders in
  which the activity map can hold them.
\<close>

definition tied_high_first :: "(simple_ep, simple_sn) ExitEndpoint" where
  "tied_high_first = two_clients\<lparr>m_IPActivity := [(0x0A000003, 5), (0x0A000002, 5)]\<rparr>"

definition tied_low_first :: "(simple_ep, simple_sn) ExitEndpoint" where
  "tied_low_first = two_clients\<lparr>m_IPActivity := [(0x0A000002, 5), (0x0A000003, 5)]\<rparr>"


text \<open>
  Key 1 gets an address and is kicked; and: keys 1 and 2 fill the \<^verbatim>\<open>/30\<close>, key 1 is
  kicked, key 3 asks for an address.
\<close>

definition kicked_client :: "(simple_ep, simple_sn) ExitEndpoint" where
  "kicked_client = im_run simple_ll slash30 [Call_GetIPForIdent 1 10, Call_KickIdentOffExit 1]"

definition kicked_then_reused :: "(simple_ep, simple_sn) ExitEndpoint" where
  "kicked_then_reused =
     im_run simple_ll slash30
       [Call_GetIPForIdent 1 10, Call_GetIPForIdent 2 20, Call_KickIdentOffExit 1,
        Call_GetIPForIdent 3 30]"


text \<open>An entry of \<^verbatim>\<open>m_ActiveExits\<close> after \<^verbatim>\<open>Tick(now)\<close> was called on its session.\<close>

definition ticked ::
  "('e, 's) LinkLayer \<Rightarrow> llarp_time_t \<Rightarrow> PubKey \<times> ptr \<times> 'e \<Rightarrow> PubKey \<times> ptr \<times> 'e" where
  "ticked ll now = (\<lambda>(k, p, e). (k, p, ep_Tick ll now e))"

text \<open>
  The sessions of key \<open>k\<close> among \<open>xs\<close> that do not look dead at \<open>now\<close>, and what it
  means for \<open>ch\<close> to hold the right choice for every key given those sessions: no entry
  if the key has no such session, else the address of one whose \<open>createdAt\<close> none of them
  exceeds.
\<close>

definition alive ::
  "('e, 's) LinkLayer \<Rightarrow> llarp_time_t \<Rightarrow> PubKey \<Rightarrow> (PubKey \<times> ptr \<times> 'e) list \<Rightarrow>
   (PubKey \<times> ptr \<times> 'e) list" where
  "alive ll now k xs = filter (\<lambda>(k', p, e). k' = k \<and> \<not> ep_LooksDead ll e now) xs"

definition chosen_ok ::
  "('e, 's) LinkLayer \<Rightarrow> llarp_time_t \<Rightarrow> (PubKey \<times> ptr \<times> 'e) list \<Rightarrow>
   (PubKey \<rightharpoonup> ptr option) \<Rightarrow> bool" where
  "chosen_ok ll now xs ch \<longleftrightarrow>
     (\<forall>k. (alive ll now k xs = [] \<longrightarrow> ch k = None) \<and>
          (alive ll now k xs \<noteq> [] \<longrightarrow>
             (\<exists>p e. (k, p, e) \<in> set (alive ll now k xs) \<and> ch k = Some (Some p) \<and>
                (\<forall>(k', p', e') \<in> set (alive ll now k xs). createdAt ll e' \<le> createdAt ll e))))"

text \<open>
  An endpoint with one session to service node 7, and one with three active exits of key
  1, created at times 10, 20 and 30, the last of which looks dead.
\<close>

definition one_snode :: "(simple_ep, simple_sn) ExitEndpoint" where
  "one_snode = im_run simple_ll slash30 [Call_ObtainServiceNodeIP 7 5]"



text \<open>The addresses of the session objects \<^verbatim>\<open>m_ActiveExits\<close> owns.\<close>

definition addresses :: "(PubKey \<times> ptr \<times> 'e) list \<Rightarrow> ptr list" where
  "addresses xs = map (\<lambda>(k, p, e). p) xs"


text \<open>Every pointer in \<^verbatim>\<open>m_ChosenExits\<close> that is not null points to a session the endpoint owns.\<close>

definition chosen_live :: "('e, 's) ExitEndpoint \<Rightarrow> bool" where
  "chosen_live s \<longleftrightarrow>
     (\<forall>k p. m_ChosenExits s k = Some (Some p) \<longrightarrow> p \<in> set (addresses (m_ActiveExits s)))"

text \<open>
  The full \<^verbatim>\<open>/30\<close> after a tick, with key 2 marked as a service node that has no
  outbound session, and four packets: to an unmapped address, to client 1, to client 2,
  and again to client 1.
\<close>

definition ticked_clients :: "(simple_ep, simple_sn) ExitEndpoint" where
  "ticked_clients =
     (case Tick simple_ll (two_clients\<lparr>m_SNodeKeys := {2}\<rparr>) 40 of
        Some s \<Rightarrow> s\<lparr>m_InetToNetwork :=
          [\<lparr>dst = 0x0A000007, Buffer = []\<rparr>, \<lparr>dst = 0x0A000002, Buffer = []\<rparr>,
           \<lparr>dst = 0x0A000003, Buffer = []\<rparr>, \<lparr>dst = 0x0A000002, Buffer = []\<rparr>]\<rparr>
      | None \<Rightarrow> two_clients)"

text \<open>
  The full \<^verbatim>\<open>/30\<close> after a tick at time 40, followed by two more requests for a session:
  from key 3 at time 50 and from key 1 at time 60, whose session objects are at the new
  addresses 3 and 4. Then one packet for 10.0.0.3 is queued.
\<close>

definition stale_chosen :: "(simple_ep, simple_sn) ExitEndpoint" where
  "stale_chosen =
     (case Tick simple_ll two_clients 40 of
        Some s \<Rightarrow>
          (im_run simple_ll s
             [Call_AllocateNewExit 3 3 False False 50 3,
              Call_AllocateNewExit 1 4 False False 60 4])
          \<lparr>m_InetToNetwork := [\<lparr>dst = 0x0A000003, Buffer = []\<rparr>]\<rparr>
      | None \<Rightarrow> two_clients)"


text \<open>
  The two maps of the identity map are inverses of each other, and the addresses with an
  activity time are the mapped ones.
\<close>

definition inverse_inv :: "('e, 's) ExitEndpoint \<Rightarrow> bool" where
  "inverse_inv s \<longleftrightarrow>
     (\<forall>k ip. m_KeyToIP s k = Some ip \<longleftrightarrow> m_IPToKey s ip = Some k) \<and>
     dom (m_IPToKey s) = fst ` set (m_IPActivity s)"

fun is_kick :: "im_call \<Rightarrow> bool" where
  "is_kick (Call_KickIdentOffExit pk) = True"
| "is_kick c = False"


section \<open>Properties\<close>

lemmas endpoint_defs =
  im_run_def slash30_def fresh_endpoint_def simple_ll_def SetOption_ifaddr_def
  AllocateNewExit_def ObtainServiceNodeIP_def GetIPForIdent_def AllocateNewAddress_def
  KickIdentOffExit_def HasLocalMappedAddrFor_def MarkIPActive_def index_default_def
  llarp_time_max_def Let_def

subsection \<open>The identity map\<close>

lemma AllocateNewAddress_keeps_unmapped:
  "m_KeyToIP s pk = None \<Longrightarrow> m_KeyToIP (snd (AllocateNewAddress s)) pk = None"
  by (auto simp: AllocateNewAddress_def KickIdentOffExit_def index_default_def Let_def
      split: option.splits prod.splits)

lemma GetIPForIdent_mapped:
  "m_KeyToIP s pk = Some ip \<Longrightarrow> GetIPForIdent s pk now = (ip, MarkIPActive s ip now)"
  by (simp add: GetIPForIdent_def HasLocalMappedAddrFor_def index_default_def)

lemma GetIPForIdent_unmapped:
  assumes "m_KeyToIP s pk = None" and "AllocateNewAddress s = (found, s1)"
  shows "GetIPForIdent s pk now =
    (found,
     if m_IPToKey s1 found \<noteq> None then s1\<lparr>m_KeyToIP := (m_KeyToIP s1)(pk \<mapsto> found)\<rparr>
     else MarkIPActive (s1\<lparr>m_KeyToIP := (m_KeyToIP s1)(pk \<mapsto> found),
                           m_IPToKey := (m_IPToKey s1)(found \<mapsto> pk)\<rparr>) found now)"
proof -
  from assms AllocateNewAddress_keeps_unmapped [of s pk] have "m_KeyToIP s1 pk = None"
    by simp
  with assms show ?thesis
    by (simp add: GetIPForIdent_def HasLocalMappedAddrFor_def Let_def)
qed

text \<open>The assertion at the end of \<^verbatim>\<open>GetIPForIdent\<close> holds, and the key is mapped to the result.\<close>

lemma GetIPForIdent_maps:
  "m_KeyToIP (snd (GetIPForIdent s pk now)) pk = Some (fst (GetIPForIdent s pk now))"
proof (cases "m_KeyToIP s pk")
  case None
  obtain found s1 where a: "AllocateNewAddress s = (found, s1)"
    by (cases "AllocateNewAddress s")
  show ?thesis
    by (simp add: GetIPForIdent_unmapped [OF None a] MarkIPActive_def)
next
  case (Some ip)
  then show ?thesis
    by (simp add: GetIPForIdent_mapped MarkIPActive_def)
qed

lemma GetIPForIdent_again:
  "fst (GetIPForIdent (snd (GetIPForIdent s pk now)) pk now') = fst (GetIPForIdent s pk now)"
  using GetIPForIdent_maps [of s pk now]
  by (simp add: GetIPForIdent_def [of "snd (GetIPForIdent s pk now)"] HasLocalMappedAddrFor_def
      index_default_def)

lemma KickIdentOffExit_frame:
  "m_SNodeKeys (KickIdentOffExit s pk) = m_SNodeKeys s"
  "m_SNodeSessions (KickIdentOffExit s pk) = m_SNodeSessions s"
  by (simp_all add: KickIdentOffExit_def split: prod.splits)

lemma AllocateNewAddress_frame:
  "m_SNodeKeys (snd (AllocateNewAddress s)) = m_SNodeKeys s"
  "m_SNodeSessions (snd (AllocateNewAddress s)) = m_SNodeSessions s"
  by (simp_all add: AllocateNewAddress_def KickIdentOffExit_frame Let_def split: prod.splits)

lemma GetIPForIdent_frame:
  "m_SNodeKeys (snd (GetIPForIdent s pk now)) = m_SNodeKeys s"
  "m_SNodeSessions (snd (GetIPForIdent s pk now)) = m_SNodeSessions s"
proof -
  obtain found s1 where a: "AllocateNewAddress s = (found, s1)"
    by (cases "AllocateNewAddress s")
  with AllocateNewAddress_frame [of s]
  have f: "m_SNodeKeys s1 = m_SNodeKeys s" "m_SNodeSessions s1 = m_SNodeSessions s"
    by simp_all
  show "m_SNodeKeys (snd (GetIPForIdent s pk now)) = m_SNodeKeys s"
    by (cases "m_KeyToIP s pk")
      (simp_all add: GetIPForIdent_mapped GetIPForIdent_unmapped [OF _ a] MarkIPActive_def f)
  show "m_SNodeSessions (snd (GetIPForIdent s pk now)) = m_SNodeSessions s"
    by (cases "m_KeyToIP s pk")
      (simp_all add: GetIPForIdent_mapped GetIPForIdent_unmapped [OF _ a] MarkIPActive_def f)
qed

lemma two_clients_facts:
  "m_KeyToIP two_clients 1 = Some 0x0A000002"
  "\<not> m_NextAddr two_clients < m_HigestAddr two_clients"
  "fst (AllocateNewAddress two_clients) = 0x0A000002"
  "m_IPToKey two_clients 0x0A000002 = Some 1"
  by (simp_all add: two_clients_def endpoint_defs)

lemma KickIdentOffExit_fields:
  "m_KeyToIP (KickIdentOffExit s pk) = (m_KeyToIP s)(pk := None)"
  "m_KeyToIP s pk = Some ip \<Longrightarrow> m_IPToKey (KickIdentOffExit s pk) = (m_IPToKey s)(ip := None)"
  "m_KeyToIP s pk = None \<Longrightarrow> m_IPToKey (KickIdentOffExit s pk) = (m_IPToKey s)(0 := None)"
  "m_ActiveExits (KickIdentOffExit s pk) = filter (\<lambda>(k, _). k \<noteq> pk) (m_ActiveExits s)"
  by (simp_all add: KickIdentOffExit_def index_default_def split: option.splits)

lemma AllocateNewAddress_evicts:
  assumes "\<not> m_NextAddr s < m_HigestAddr s"
    and "m_IPToKey s (fst (oldest (m_IPActivity s) (0, llarp_time_max))) = Some k"
  shows "AllocateNewAddress s =
    (fst (oldest (m_IPActivity s) (0, llarp_time_max)), KickIdentOffExit s k)"
  using assms by (simp add: AllocateNewAddress_def index_default_def Let_def)

lemma AllocateNewAddress_found:
  "\<not> m_NextAddr s < m_HigestAddr s \<Longrightarrow>
   fst (AllocateNewAddress s) = fst (oldest (m_IPActivity s) (0, llarp_time_max))"
  by (simp add: AllocateNewAddress_def Let_def split: prod.splits)

text \<open>
  C5. \<^verbatim>\<open>KickIdentOffExit(pk)\<close> removes the entry of \<open>pk\<close> from \<^verbatim>\<open>m_KeyToIP\<close>, removes the
  entry of the address \<open>pk\<close> was mapped to from \<^verbatim>\<open>m_IPToKey\<close>, and removes every entry of
  \<^verbatim>\<open>m_ActiveExits\<close> whose key is \<open>pk\<close>, keeping the others in order; \<^verbatim>\<open>m_SNodeKeys\<close> and
  \<^verbatim>\<open>m_SNodeSessions\<close> are unchanged. When \<^verbatim>\<open>AllocateNewAddress\<close> has no fresh address
  left and the address it reclaims is bound to a key \<open>k\<close>, the endpoint it leaves is
  exactly the one \<^verbatim>\<open>KickIdentOffExit(k)\<close> leaves.
\<close>

theorem KickIdentOffExit_removes:
  "m_KeyToIP (KickIdentOffExit s pk) = (m_KeyToIP s)(pk := None) \<and>
   (\<forall>ip. m_KeyToIP s pk = Some ip \<longrightarrow>
      m_IPToKey (KickIdentOffExit s pk) = (m_IPToKey s)(ip := None)) \<and>
   m_ActiveExits (KickIdentOffExit s pk) = filter (\<lambda>(k, _). k \<noteq> pk) (m_ActiveExits s) \<and>
   m_SNodeKeys (KickIdentOffExit s pk) = m_SNodeKeys s \<and>
   m_SNodeSessions (KickIdentOffExit s pk) = m_SNodeSessions s \<and>
   (\<forall>k. \<not> m_NextAddr s < m_HigestAddr s \<and>
      m_IPToKey s (fst (AllocateNewAddress s)) = Some k \<longrightarrow>
      snd (AllocateNewAddress s) = KickIdentOffExit s k)"
proof (intro conjI allI impI)
  fix k
  assume a: "\<not> m_NextAddr s < m_HigestAddr s \<and>
      m_IPToKey s (fst (AllocateNewAddress s)) = Some k"
  then have c: "\<not> m_NextAddr s < m_HigestAddr s"
    and d: "m_IPToKey s (fst (AllocateNewAddress s)) = Some k"
    by blast+
  from d have "m_IPToKey s (fst (oldest (m_IPActivity s) (0, llarp_time_max))) = Some k"
    by (simp only: AllocateNewAddress_found [OF c])
  from AllocateNewAddress_evicts [OF c this]
  show "snd (AllocateNewAddress s) = KickIdentOffExit s k"
    by simp
qed (simp_all add: KickIdentOffExit_fields KickIdentOffExit_frame)

theorem KickIdentOffExit_removes_witness:
  "m_KeyToIP two_clients 1 = Some 0x0A000002 \<and>
   m_IPToKey (KickIdentOffExit two_clients 1) = (m_IPToKey two_clients)(0x0A000002 := None) \<and>
   \<not> m_NextAddr two_clients < m_HigestAddr two_clients \<and>
   m_IPToKey two_clients (fst (AllocateNewAddress two_clients)) = Some 1 \<and>
   snd (AllocateNewAddress two_clients) = KickIdentOffExit two_clients 1"
  using KickIdentOffExit_removes [of two_clients 1] two_clients_facts
  by simp

subsection \<open>Path admission\<close>

text \<open>
  C6. \<^verbatim>\<open>AllocateNewExit(pk, path, wantInternet)\<close> returns false and leaves the endpoint as
  it was when \<open>wantInternet\<close> is set and \<^verbatim>\<open>m_PermitExit\<close> is not. In every other case (so
  also with \<^verbatim>\<open>m_PermitExit\<close> false and \<open>wantInternet\<close> false) it returns true, which is
  the value of \<^verbatim>\<open>HasLocalMappedAddrFor(pk)\<close>; \<open>pk\<close> is then mapped to the address
  \<^verbatim>\<open>GetIPForIdent\<close> returned, a session built from \<open>pk\<close>, the path, \<open>\<not> wantInternet\<close> and
  that address has joined \<^verbatim>\<open>m_ActiveExits\<close> under \<open>pk\<close>, and \<^verbatim>\<open>m_Paths[path]\<close> is \<open>pk\<close>.
\<close>

theorem AllocateNewExit_result:
  "(wantInternet \<and> \<not> m_PermitExit s \<longrightarrow>
      AllocateNewExit ll s pk path wantInternet prevIsRouter now p = (False, s)) \<and>
   (\<not> (wantInternet \<and> \<not> m_PermitExit s) \<longrightarrow>
      (\<exists>ip s1 s'.
         GetIPForIdent s pk now = (ip, s1) \<and>
         AllocateNewExit ll s pk path wantInternet prevIsRouter now p = (True, s') \<and>
         HasLocalMappedAddrFor s' pk \<and>
         m_KeyToIP s' pk = Some ip \<and>
         m_ActiveExits s' =
           m_ActiveExits s1 @ [(pk, p, ep_new ll pk path (\<not> wantInternet) ip now)] \<and>
         m_Paths s' path = Some pk))"
proof -
  obtain ip s1 where g: "GetIPForIdent s pk now = (ip, s1)"
    by (cases "GetIPForIdent s pk now")
  with GetIPForIdent_maps [of s pk now] have m: "m_KeyToIP s1 pk = Some ip"
    by simp
  show ?thesis
    using g m by (auto simp: AllocateNewExit_def HasLocalMappedAddrFor_def Let_def)
qed

theorem AllocateNewExit_result_witness:
  "\<not> m_PermitExit slash30 \<and>
   AllocateNewExit simple_ll slash30 1 1 True False 10 1 = (False, slash30) \<and>
   (\<exists>s'. AllocateNewExit simple_ll slash30 1 1 False False 10 1 = (True, s') \<and>
      m_KeyToIP s' 1 = Some 0x0A000002 \<and> m_Paths s' 1 = Some 1)"
proof -
  have p: "\<not> m_PermitExit slash30"
    by (simp add: slash30_def fresh_endpoint_def SetOption_ifaddr_def)
  have g: "fst (GetIPForIdent slash30 1 10) = 0x0A000002"
    by (simp add: endpoint_defs)
  from AllocateNewExit_result [of True slash30 simple_ll 1 1 False 10 1] p
  have a: "AllocateNewExit simple_ll slash30 1 1 True False 10 1 = (False, slash30)"
    by simp
  from AllocateNewExit_result [of False slash30 simple_ll 1 1 False 10 1] g
  have b: "\<exists>s'. AllocateNewExit simple_ll slash30 1 1 False False 10 1 = (True, s') \<and>
      m_KeyToIP s' 1 = Some 0x0A000002 \<and> m_Paths s' 1 = Some 1"
    by auto
  from p a b show ?thesis
    by simp
qed

subsection \<open>DNS\<close>

text \<open>
  The code inserts a session into \<^verbatim>\<open>m_SNodeSessions\<close> only together with its key into
  \<^verbatim>\<open>m_SNodeKeys\<close>, and never erases a key.
\<close>

lemma snode_sessions_im_step:
  assumes "fst ` set (m_SNodeSessions s) \<subseteq> m_SNodeKeys s"
  shows "fst ` set (m_SNodeSessions (im_step ll s c)) \<subseteq> m_SNodeKeys (im_step ll s c)"
proof (cases c)
  case (Call_GetIPForIdent pk now)
  with assms show ?thesis
    by (simp add: GetIPForIdent_frame)
next
  case (Call_AllocateNewExit pk path wantInternet prevIsRouter now p)
  obtain ip s1 where g: "GetIPForIdent s pk now = (ip, s1)"
    by (cases "GetIPForIdent s pk now")
  with GetIPForIdent_frame [of s pk now]
  have "m_SNodeKeys s1 = m_SNodeKeys s" "m_SNodeSessions s1 = m_SNodeSessions s"
    by simp_all
  with assms g Call_AllocateNewExit show ?thesis
    by (auto simp: AllocateNewExit_def Let_def)
next
  case (Call_ObtainServiceNodeIP pk now)
  obtain ip s1 where g: "GetIPForIdent s pk now = (ip, s1)"
    by (cases "GetIPForIdent s pk now")
  with GetIPForIdent_frame [of s pk now]
  have "m_SNodeKeys s1 = m_SNodeKeys s" "m_SNodeSessions s1 = m_SNodeSessions s"
    by simp_all
  with assms g Call_ObtainServiceNodeIP show ?thesis
    by (auto simp: ObtainServiceNodeIP_def)
next
  case (Call_KickIdentOffExit pk)
  with assms show ?thesis
    by (simp add: KickIdentOffExit_frame)
qed

lemma snode_sessions_Tick:
  assumes "fst ` set (m_SNodeSessions s) \<subseteq> m_SNodeKeys s" and "Tick ll s now = Some s'"
  shows "fst ` set (m_SNodeSessions s') \<subseteq> m_SNodeKeys s'"
  using assms by (force simp: Tick_def Let_def split: option.splits)

text \<open>
  C8. A hooked \<^verbatim>\<open>A\<close> query whose name does not parse as a router id is answered with
  NXDOMAIN and leaves the endpoint as it was. When the name parses to a key \<open>r\<close> that is not
  in \<^verbatim>\<open>m_SNodeKeys\<close>, the reply carries the address \<^verbatim>\<open>ObtainServiceNodeIP\<close> returns;
  afterwards \<open>r\<close> is mapped to that address, is in \<^verbatim>\<open>m_SNodeKeys\<close>, and
  \<^verbatim>\<open>m_SNodeSessions\<close> holds exactly one session for \<open>r\<close>, the one just built. The same
  query asked again gets the same address and leaves the endpoint, and so its sessions,
  unchanged. \<^verbatim>\<open>GetIPForIdent(pk)\<close> called twice in a row returns the same address. The
  endpoint is one whose \<^verbatim>\<open>m_SNodeSessions\<close> keys are all in \<^verbatim>\<open>m_SNodeKeys\<close>, as the code
  keeps them.
\<close>

theorem HandleHookedDNSMessage_A:
  assumes q: "questions msg = q # qs" "qtype q = qTypeA"
    and sub: "fst ` set (m_SNodeSessions s) \<subseteq> m_SNodeKeys s"
  shows
    "(FromString nm (qname q) = None \<longrightarrow>
        HandleHookedDNSMessage ll nm us s msg now =
          Some (True, Some (msg\<lparr>replies := replies msg @ [NXReply]\<rparr>), s)) \<and>
     (\<forall>r. FromString nm (qname q) = Some r \<and> r \<notin> m_SNodeKeys s \<longrightarrow>
        (\<exists>ip s'.
           ObtainServiceNodeIP ll s r now = (ip, s') \<and>
           HandleHookedDNSMessage ll nm us s msg now =
             Some (True, Some (msg\<lparr>replies := replies msg @ [INReply ip]\<rparr>), s') \<and>
           m_KeyToIP s' r = Some ip \<and>
           r \<in> m_SNodeKeys s' \<and>
           filter (\<lambda>(k, sn). k = r) (m_SNodeSessions s') = [(r, sn_new ll r ip)] \<and>
           (\<forall>now'. HandleHookedDNSMessage ll nm us s' msg now' =
              Some (True, Some (msg\<lparr>replies := replies msg @ [INReply ip]\<rparr>), s')))) \<and>
     (\<forall>pk now'. fst (GetIPForIdent (snd (GetIPForIdent s pk now)) pk now') =
        fst (GetIPForIdent s pk now))"
proof (intro conjI allI impI)
  have ne: "qTypeA \<noteq> qTypePTR"
    by (simp add: qTypeA_def qTypePTR_def)
  {
    assume "FromString nm (qname q) = None"
    then show "HandleHookedDNSMessage ll nm us s msg now =
        Some (True, Some (msg\<lparr>replies := replies msg @ [NXReply]\<rparr>), s)"
      using q ne by (simp add: HandleHookedDNSMessage_def)
  next
    fix r
    assume r: "FromString nm (qname q) = Some r \<and> r \<notin> m_SNodeKeys s"
    obtain ip s1 where g: "GetIPForIdent s r now = (ip, s1)"
      by (cases "GetIPForIdent s r now")
    from g GetIPForIdent_maps [of s r now] have m: "m_KeyToIP s1 r = Some ip"
      by simp
    from g GetIPForIdent_frame [of s r now]
    have fr: "m_SNodeKeys s1 = m_SNodeKeys s" "m_SNodeSessions s1 = m_SNodeSessions s"
      by simp_all
    from r sub have nosess: "r \<notin> fst ` set (m_SNodeSessions s)"
      by blast
    then have nomap: "map_of (m_SNodeSessions s) r = None"
      by (simp add: map_of_eq_None_iff)
    from nosess have nofilter: "filter (\<lambda>(k, sn). k = r) (m_SNodeSessions s) = []"
      by (force simp: filter_empty_conv)
    define s' where "s' = s1\<lparr>m_SNodeKeys := insert r (m_SNodeKeys s1),
      m_SNodeSessions := m_SNodeSessions s1 @ [(r, sn_new ll r ip)]\<rparr>"
    have o: "ObtainServiceNodeIP ll s r now = (ip, s')"
      using g r fr nomap by (simp add: ObtainServiceNodeIP_def s'_def)
    have h1: "HandleHookedDNSMessage ll nm us s msg now =
        Some (True, Some (msg\<lparr>replies := replies msg @ [INReply ip]\<rparr>), s')"
      using q ne r o by (simp add: HandleHookedDNSMessage_def)
    have h2: "\<And>now'. HandleHookedDNSMessage ll nm us s' msg now' =
        Some (True, Some (msg\<lparr>replies := replies msg @ [INReply ip]\<rparr>), s')"
      using q ne r m by (simp add: HandleHookedDNSMessage_def s'_def)
    show "\<exists>ip s'.
           ObtainServiceNodeIP ll s r now = (ip, s') \<and>
           HandleHookedDNSMessage ll nm us s msg now =
             Some (True, Some (msg\<lparr>replies := replies msg @ [INReply ip]\<rparr>), s') \<and>
           m_KeyToIP s' r = Some ip \<and>
           r \<in> m_SNodeKeys s' \<and>
           filter (\<lambda>(k, sn). k = r) (m_SNodeSessions s') = [(r, sn_new ll r ip)] \<and>
           (\<forall>now'. HandleHookedDNSMessage ll nm us s' msg now' =
              Some (True, Some (msg\<lparr>replies := replies msg @ [INReply ip]\<rparr>), s'))"
      using o h1 h2 m nofilter fr by (intro exI [of _ ip] exI [of _ s']) (simp add: s'_def)
  next
    fix pk now'
    show "fst (GetIPForIdent (snd (GetIPForIdent s pk now)) pk now') = fst (GetIPForIdent s pk now)"
      by (rule GetIPForIdent_again)
  }
qed

theorem HandleHookedDNSMessage_A_witness:
  "questions snode_query = snode_question # [] \<and> qtype snode_question = qTypeA \<and>
   fst ` set (m_SNodeSessions slash30) \<subseteq> m_SNodeKeys slash30 \<and>
   FromString simple_names (qname snode_question) = Some 7 \<and> 7 \<notin> m_SNodeKeys slash30 \<and>
   (\<exists>s'. HandleHookedDNSMessage simple_ll simple_names 0 slash30 snode_query 5 =
        Some (True, Some (snode_query\<lparr>replies := replies snode_query @ [INReply 0x0A000002]\<rparr>), s') \<and>
      HandleHookedDNSMessage simple_ll simple_names 0 s' snode_query 6 =
        Some (True, Some (snode_query\<lparr>replies := replies snode_query @ [INReply 0x0A000002]\<rparr>), s')) \<and>
   questions bad_query = bad_question # [] \<and> qtype bad_question = qTypeA \<and>
   FromString simple_names (qname bad_question) = None \<and>
   HandleHookedDNSMessage simple_ll simple_names 0 slash30 bad_query 5 =
     Some (True, Some (bad_query\<lparr>replies := replies bad_query @ [NXReply]\<rparr>), slash30)"
proof -
  have q1: "questions snode_query = snode_question # []" "qtype snode_question = qTypeA"
    and q2: "questions bad_query = bad_question # []" "qtype bad_question = qTypeA"
    by (simp_all add: snode_query_def snode_question_def bad_query_def bad_question_def)
  have sub: "fst ` set (m_SNodeSessions slash30) \<subseteq> m_SNodeKeys slash30"
    and nk: "7 \<notin> m_SNodeKeys slash30"
    by (simp_all add: slash30_def fresh_endpoint_def SetOption_ifaddr_def)
  have f1: "FromString simple_names (qname snode_question) = Some 7"
    and f2: "FromString simple_names (qname bad_question) = None"
    by (simp_all add: simple_names_def snode_question_def bad_question_def)
  have ip: "fst (ObtainServiceNodeIP simple_ll slash30 7 5) = 0x0A000002"
    by (simp add: endpoint_defs split: prod.splits)
  from HandleHookedDNSMessage_A [OF q1 sub, of simple_names simple_ll 0 5] f1 nk ip
  have a: "\<exists>s'. HandleHookedDNSMessage simple_ll simple_names 0 slash30 snode_query 5 =
        Some (True, Some (snode_query\<lparr>replies := replies snode_query @ [INReply 0x0A000002]\<rparr>), s') \<and>
      HandleHookedDNSMessage simple_ll simple_names 0 s' snode_query 6 =
        Some (True, Some (snode_query\<lparr>replies := replies snode_query @ [INReply 0x0A000002]\<rparr>), s')"
    by fastforce
  from HandleHookedDNSMessage_A [OF q2 sub, of simple_names simple_ll 0 5] f2
  have b: "HandleHookedDNSMessage simple_ll simple_names 0 slash30 bad_query 5 =
     Some (True, Some (bad_query\<lparr>replies := replies bad_query @ [NXReply]\<rparr>), slash30)"
    by simp
  from q1 q2 sub nk f1 f2 a b show ?thesis
    by simp
qed

lemma first_occurrence_Some_iff:
  "first_occurrence hay needle = Some i \<longleftrightarrow>
     take (length needle) (drop i hay) = needle \<and>
     (\<forall>j<i. take (length needle) (drop j hay) \<noteq> needle)"
proof (induction hay arbitrary: i)
  case Nil
  then show ?case by auto
next
  case (Cons c hay)
  show ?case
  proof (cases "take (length needle) (c # hay) = needle")
    case True
    then show ?thesis
      by (cases i) auto
  next
    case False
    show ?thesis
    proof (cases i)
      case 0
      with False show ?thesis by simp
    next
      case (Suc i')
      have "(\<forall>j<Suc i'. take (length needle) (drop j (c # hay)) \<noteq> needle) \<longleftrightarrow>
            (\<forall>j<i'. take (length needle) (drop j hay) \<noteq> needle)"
        using False by (auto simp: less_Suc_eq_0_disj)
      with False Suc Cons.IH [of i'] show ?thesis
        by auto
    qed
  qed
qed

lemma first_occurrence_le:
  "first_occurrence hay needle = Some i \<Longrightarrow> i \<le> length hay"
  by (induction hay arbitrary: i) (auto split: if_splits)

lemma find_str_at_end:
  fixes name :: string
  assumes len: "7 \<le> length name" "length name < 2 ^ 64"
  shows "find_str name needle = of_nat (length name) - 7 \<longleftrightarrow>
    first_occurrence name needle = Some (length name - 7)"
proof -
  let ?n = "length name"
  have sub: "(of_nat ?n - 7 :: size_t) = of_nat (?n - 7)"
    using len by simp
  have small: "?n - 7 < 2 ^ 64 - 1"
    using len by simp
  show ?thesis
  proof (cases "first_occurrence name needle")
    case None
    have "(of_nat (?n - 7) :: size_t) \<noteq> - 1"
    proof
      assume "(of_nat (?n - 7) :: size_t) = - 1"
      then have "unat (of_nat (?n - 7) :: size_t) = unat (- 1 :: size_t)"
        by simp
      with small show False
        by (simp add: unat_of_nat unsigned_minus_1_eq_mask mask_eq_exp_minus_1)
    qed
    with None sub show ?thesis
      by (simp add: find_str_def npos_def)
  next
    case (Some i)
    then have "i \<le> ?n"
      by (rule first_occurrence_le)
    with len have i: "i < 2 ^ 64"
      by simp
    have "(of_nat i :: size_t) = of_nat (?n - 7) \<longleftrightarrow> i = ?n - 7"
    proof
      assume "(of_nat i :: size_t) = of_nat (?n - 7)"
      then have "unat (of_nat i :: size_t) = unat (of_nat (?n - 7) :: size_t)"
        by simp
      with i small show "i = ?n - 7"
        by (simp add: unat_of_nat)
    qed simp
    with Some sub show ?thesis
      by (simp add: find_str_def)
  qed
qed

lemma ends_with_iff:
  assumes "length needle \<le> length name"
  shows "take (length needle) (drop (length name - length needle) name) = needle \<longleftrightarrow>
    (\<exists>base. name = base @ needle)"
proof
  assume t: "take (length needle) (drop (length name - length needle) name) = needle"
  have "name = take (length name - length needle) name @ drop (length name - length needle) name"
    by simp
  also have "drop (length name - length needle) name =
      take (length needle) (drop (length name - length needle) name)"
    using assms by simp
  finally show "\<exists>base. name = base @ needle"
    using t by metis
next
  assume "\<exists>base. name = base @ needle"
  then show "take (length needle) (drop (length name - length needle) name) = needle"
    by auto
qed

text \<open>
  C7, amended. \<^verbatim>\<open>ShouldHookDNSMessage\<close> returns true exactly if the message has a question
  and the first one either is a \<^verbatim>\<open>PTR\<close> question whose name decodes to an IPv4 address
  that \<^verbatim>\<open>m_OurRange.Contains\<close> accepts, which is: \<^verbatim>\<open>m_OurRange\<close> is a range of
  IPv4-mapped addresses (\<^verbatim>\<open>IsV4\<close>) and the expanded address agrees with the range's
  address under its mask; or is an \<^verbatim>\<open>A\<close> question whose name ends in \<^verbatim>\<open>.snode.\<close>, the
  final dot included. This is stated for \<^verbatim>\<open>A\<close> names of at least seven characters in
  which \<^verbatim>\<open>.snode.\<close> does not occur before the last seven.
\<close>

theorem ShouldHookDNSMessage_snode_dot:
  assumes "\<forall>q qs. questions msg = q # qs \<and> qtype q = qTypeA \<longrightarrow>
      7 \<le> length (qname q) \<and> length (qname q) < 2 ^ 64 \<and>
      (\<forall>j \<in> set [0..<length (qname q) - 7]. take 7 (drop j (qname q)) \<noteq> ''.snode.'')"
  shows "ShouldHookDNSMessage nb nm s msg \<longleftrightarrow>
     (\<exists>q qs. questions msg = q # qs \<and>
        (qtype q = qTypePTR \<and>
           (\<exists>ip. DecodePTR nm (qname q) = Some ip \<and> IsV4 nb (m_OurRange s) \<and>
              (addr (m_OurRange s) AND netmask_bits (m_OurRange s)) =
              (ExpandV4 nb ip AND netmask_bits (m_OurRange s))) \<or>
         qtype q = qTypeA \<and> (\<exists>base. qname q = base @ ''.snode.'')))"
proof (cases "questions msg")
  case Nil
  then show ?thesis
    by (simp add: ShouldHookDNSMessage_def)
next
  case (Cons q qs)
  have ne: "qTypeA \<noteq> qTypePTR"
    by (simp add: qTypeA_def qTypePTR_def)
  consider (ptr) "qtype q = qTypePTR" | (a) "qtype q = qTypeA" |
    (other) "qtype q \<noteq> qTypePTR" "qtype q \<noteq> qTypeA"
    by blast
  then show ?thesis
  proof cases
    case ptr
    with Cons ne show ?thesis
      by (simp add: ShouldHookDNSMessage_def Contains_huint32_def Contains_def
          split: option.splits)
  next
    case a
    with Cons assms have len: "7 \<le> length (qname q)" "length (qname q) < 2 ^ 64"
      and early: "\<forall>j<length (qname q) - 7. take 7 (drop j (qname q)) \<noteq> ''.snode.''"
      by auto
    have l: "length ''.snode.'' = 7"
      by simp
    have "find_str (qname q) ''.snode.'' = of_nat (length (qname q)) - 7 \<longleftrightarrow>
        first_occurrence (qname q) ''.snode.'' = Some (length (qname q) - 7)"
      using len by (rule find_str_at_end)
    also have "\<dots> \<longleftrightarrow> take 7 (drop (length (qname q) - 7) (qname q)) = ''.snode.''"
      using early first_occurrence_Some_iff [of "qname q" "''.snode.''" "length (qname q) - 7"]
      by (simp only: l) blast
    also have "\<dots> \<longleftrightarrow> (\<exists>base. qname q = base @ ''.snode.'')"
      using ends_with_iff [of "''.snode.''" "qname q"] len by (simp only: l)
    finally show ?thesis
      using Cons a ne by (simp add: ShouldHookDNSMessage_def)
  next
    case other
    with Cons show ?thesis
      by (simp add: ShouldHookDNSMessage_def)
  qed
qed

theorem ShouldHookDNSMessage_snode_dot_witness:
  "7 \<le> length (qname snode_question) \<and> length (qname snode_question) < 2 ^ 64 \<and>
   qname snode_question = ''router7'' @ ''.snode.'' \<and>
   ShouldHookDNSMessage simple_nb simple_names slash30 snode_query \<and>
   ShouldHookDNSMessage simple_nb simple_names expanded_slash30 ptr_query"
proof -
  have h: "\<forall>q qs. questions snode_query = q # qs \<and> qtype q = qTypeA \<longrightarrow>
      7 \<le> length (qname q) \<and> length (qname q) < 2 ^ 64 \<and>
      (\<forall>j \<in> set [0..<length (qname q) - 7]. take 7 (drop j (qname q)) \<noteq> ''.snode.'')"
    by (simp add: snode_query_def snode_question_def atLeast0_lessThan_Suc)
  have n: "qname snode_question = ''router7'' @ ''.snode.''"
    by (simp add: snode_question_def)
  have q: "questions snode_query = snode_question # []" "qtype snode_question = qTypeA"
    by (simp_all add: snode_query_def snode_question_def)
  from ShouldHookDNSMessage_snode_dot [OF h, of simple_nb simple_names slash30] q n
  have a: "ShouldHookDNSMessage simple_nb simple_names slash30 snode_query"
    by blast
  have h': "\<forall>q qs. questions ptr_query = q # qs \<and> qtype q = qTypeA \<longrightarrow>
      7 \<le> length (qname q) \<and> length (qname q) < 2 ^ 64 \<and>
      (\<forall>j \<in> set [0..<length (qname q) - 7]. take 7 (drop j (qname q)) \<noteq> ''.snode.'')"
    by (simp add: ptr_query_def qTypeA_def qTypePTR_def)
  have p: "questions ptr_query =
      \<lparr>qname = ''2.0.0.10.in-addr.arpa.'', qtype = qTypePTR\<rparr> # []"
    "DecodePTR simple_names ''2.0.0.10.in-addr.arpa.'' = Some 0x0A000002"
    by (simp_all add: ptr_query_def simple_names_def)
  have r: "IsV4 simple_nb (m_OurRange expanded_slash30)"
    "(addr (m_OurRange expanded_slash30) AND netmask_bits (m_OurRange expanded_slash30)) =
     (ExpandV4 simple_nb 0x0A000002 AND netmask_bits (m_OurRange expanded_slash30))"
    by (simp_all add: expanded_slash30_def simple_nb_def IsV4_def Contains_def
        mask_eq_exp_minus_1)
  from ShouldHookDNSMessage_snode_dot [OF h', of simple_nb simple_names expanded_slash30] p r
  have b: "ShouldHookDNSMessage simple_nb simple_names expanded_slash30 ptr_query"
    by simp
  from n a b show ?thesis
    by (simp add: snode_question_def)
qed

text \<open>
  An \<^verbatim>\<open>A\<close> question for a name that ends in \<^verbatim>\<open>.snode\<close> without the final dot is not
  hooked.
\<close>

theorem ShouldHookDNSMessage_counterexample:
  "qname (hd (questions undotted_query)) = ''router7'' @ ''.snode'' \<and>
   qtype (hd (questions undotted_query)) = qTypeA \<and>
   \<not> ShouldHookDNSMessage simple_nb simple_names slash30 undotted_query"
  by (simp add: ShouldHookDNSMessage_def undotted_query_def qTypeA_def qTypePTR_def
      find_str_def npos_def)

text \<open>
  For a name of six characters \<^verbatim>\<open>size() - 7\<close> wraps around to \<^verbatim>\<open>npos\<close>, which is what
  \<^verbatim>\<open>find\<close> returns: the question is hooked whatever the name.
\<close>

lemma ShouldHookDNSMessage_six_characters:
  "ShouldHookDNSMessage nb nm s short_query"
  by (simp add: ShouldHookDNSMessage_def short_query_def qTypeA_def qTypePTR_def
      find_str_def npos_def)

text \<open>
  \<^verbatim>\<open>SetOption\<close> stores the interface address unexpanded, so the range it leaves in
  \<^verbatim>\<open>m_OurRange\<close> is not one of IPv4-mapped addresses, provided \<^verbatim>\<open>netmask_ipv6_bits(96)\<close>
  keeps a bit of \<^verbatim>\<open>0x0000'ffff'0000'0000\<close>: on an endpoint as \<^verbatim>\<open>SetOption\<close> configures it
  no \<^verbatim>\<open>PTR\<close> question is hooked.
\<close>

lemma ucast_and_push_bit_32:
  "(ucast (x :: huint32_t) :: huint128_t) AND push_bit 32 k = 0"
proof (rule bit_eqI)
  fix n
  have "bit x n \<Longrightarrow> n < 32"
    using bit_imp_le_length [of x n] by simp
  then show "bit (ucast x AND push_bit 32 k) n \<longleftrightarrow> bit (0 :: huint128_t) n"
    by (auto simp: bit_simps)
qed

lemma ucast_below_mapped_prefix:
  "(ucast (x :: huint32_t) :: huint128_t) AND 0x0000ffff00000000 = 0"
  using ucast_and_push_bit_32 [of x "0xffff"] by simp

lemma IsV4_unexpanded:
  assumes "0x0000ffff00000000 AND netmask_ipv6_bits nb 96 \<noteq> 0"
  shows "\<not> IsV4 nb \<lparr>addr = ucast (x :: huint32_t), netmask_bits = m\<rparr>"
proof
  let ?p = "0x0000ffff00000000 :: huint128_t"
  let ?m = "netmask_ipv6_bits nb 96"
  assume "IsV4 nb \<lparr>addr = ucast x, netmask_bits = m\<rparr>"
  then have "?p AND ?m = ucast x AND ?m"
    by (simp add: IsV4_def Contains_def)
  then have "(?p AND ?m) AND ?p = (ucast x AND ?m) AND ?p"
    by simp
  also have "(ucast x AND ?m) AND ?p = (ucast x AND ?p) AND ?m"
    by (simp only: and.assoc and.commute and.left_commute)
  also have "\<dots> = 0"
    by (simp only: ucast_below_mapped_prefix and.left_neutral and_zero_eq zero_and_eq)
  also have "(?p AND ?m) AND ?p = ?p AND ?m"
    by (simp only: and.assoc and.commute and.left_commute and.idem and.left_idem)
  finally show False
    using assms by simp
qed

lemma ShouldHookDNSMessage_ptr_unexpanded:
  assumes "0x0000ffff00000000 AND netmask_ipv6_bits nb 96 \<noteq> 0"
    and "questions msg = q # qs" and "qtype q = qTypePTR"
  shows "\<not> ShouldHookDNSMessage nb nm (SetOption_ifaddr s ifaddr nmask) msg"
  using assms(2,3) IsV4_unexpanded [OF assms(1), of ifaddr "ucast nmask"]
  by (simp add: ShouldHookDNSMessage_def SetOption_ifaddr_def Contains_huint32_def
      split: option.splits)

lemma ShouldHookDNSMessage_ptr_slash30:
  "\<not> ShouldHookDNSMessage simple_nb simple_names slash30 ptr_query"
proof -
  have "0x0000ffff00000000 AND netmask_ipv6_bits simple_nb 96 \<noteq> 0"
    by (simp add: simple_nb_def mask_eq_exp_minus_1)
  moreover have "questions ptr_query =
      \<lparr>qname = ''2.0.0.10.in-addr.arpa.'', qtype = qTypePTR\<rparr> # []"
    by (simp add: ptr_query_def)
  moreover have "qtype \<lparr>qname = ''2.0.0.10.in-addr.arpa.'', qtype = qTypePTR\<rparr> = qTypePTR"
    by simp
  ultimately show ?thesis
    unfolding slash30_def by (rule ShouldHookDNSMessage_ptr_unexpanded)
qed

text \<open>
  \<^verbatim>\<open>m_HigestAddr\<close> as \<^verbatim>\<open>SetOption\<close> computes it from the 128-bit mask it has just stored.
\<close>

lemma HigestAddr_low_bits:
  "(ucast ((ucast (ifaddr :: huint32_t) :: huint128_t) OR NOT (ucast (nm :: huint32_t))) ::
      huint32_t) = m_HigestAddr (SetOption_ifaddr s ifaddr nm)"
  by (simp add: SetOption_ifaddr_def) (rule bit_eqI, auto simp: bit_simps)

subsection \<open>The address pool\<close>

lemma word_less_succ:
  fixes x y :: huint32_t
  shows "x < y \<Longrightarrow> x < x + 1"
  by uint_arith

lemma oldest_cases:
  "oldest xs (f, m) = (ip, t) \<Longrightarrow>
     ((ip, t) = (f, m) \<and> (\<forall>(ip', t') \<in> set xs. m \<le> t')) \<or>
     (\<exists>pre post. xs = pre @ (ip, t) # post \<and> t < m \<and>
        (\<forall>(ip', t') \<in> set pre. t < t') \<and> (\<forall>(ip', t') \<in> set post. t \<le> t'))"
proof (induction xs arbitrary: f m)
  case Nil
  then show ?case by simp
next
  case (Cons x xs)
  obtain ip0 t0 where x: "x = (ip0, t0)"
    by (cases x)
  show ?case
  proof (cases "t0 < m")
    case True
    with Cons.prems x have "oldest xs (ip0, t0) = (ip, t)"
      by simp
    from Cons.IH [OF this] show ?thesis
    proof
      assume a: "(ip, t) = (ip0, t0) \<and> (\<forall>(ip', t') \<in> set xs. t0 \<le> t')"
      then have "x # xs = [] @ (ip, t) # xs \<and> t < m \<and>
          (\<forall>(ip', t') \<in> set []. t < t') \<and> (\<forall>(ip', t') \<in> set xs. t \<le> t')"
        using x True by simp
      then show ?thesis by blast
    next
      assume "\<exists>pre post. xs = pre @ (ip, t) # post \<and> t < t0 \<and>
        (\<forall>(ip', t') \<in> set pre. t < t') \<and> (\<forall>(ip', t') \<in> set post. t \<le> t')"
      then obtain pre post where p: "xs = pre @ (ip, t) # post" "t < t0"
        "\<forall>(ip', t') \<in> set pre. t < t'" "\<forall>(ip', t') \<in> set post. t \<le> t'"
        by blast
      then have "x # xs = (x # pre) @ (ip, t) # post \<and> t < m \<and>
          (\<forall>(ip', t') \<in> set (x # pre). t < t') \<and> (\<forall>(ip', t') \<in> set post. t \<le> t')"
        using x True by simp
      then show ?thesis by blast
    qed
  next
    case False
    with Cons.prems x have "oldest xs (f, m) = (ip, t)"
      by simp
    from Cons.IH [OF this] show ?thesis
    proof
      assume "(ip, t) = (f, m) \<and> (\<forall>(ip', t') \<in> set xs. m \<le> t')"
      with False x show ?thesis by simp
    next
      assume "\<exists>pre post. xs = pre @ (ip, t) # post \<and> t < m \<and>
        (\<forall>(ip', t') \<in> set pre. t < t') \<and> (\<forall>(ip', t') \<in> set post. t \<le> t')"
      then obtain pre post where p: "xs = pre @ (ip, t) # post" "t < m"
        "\<forall>(ip', t') \<in> set pre. t < t'" "\<forall>(ip', t') \<in> set post. t \<le> t'"
        by blast
      then have "x # xs = (x # pre) @ (ip, t) # post \<and> t < m \<and>
          (\<forall>(ip', t') \<in> set (x # pre). t < t') \<and> (\<forall>(ip', t') \<in> set post. t \<le> t')"
        using x False by simp
      then show ?thesis by blast
    qed
  qed
qed

lemma oldest_fst_mem:
  "fst (oldest xs (f, m)) \<in> insert f (fst ` set xs)"
proof -
  obtain ip t where o: "oldest xs (f, m) = (ip, t)"
    by (cases "oldest xs (f, m)")
  from oldest_cases [OF o] show ?thesis
    unfolding o by force
qed

lemma AllocateNewAddress_fresh:
  "m_NextAddr s < m_HigestAddr s \<Longrightarrow>
   AllocateNewAddress s = (m_NextAddr s + 1, s\<lparr>m_NextAddr := m_NextAddr s + 1\<rparr>)"
  by (simp add: AllocateNewAddress_def)

text \<open>What the eviction branch leaves in the maps.\<close>

lemma AllocateNewAddress_evict_fields:
  assumes "\<not> m_NextAddr s < m_HigestAddr s"
  shows "ran (m_KeyToIP (snd (AllocateNewAddress s))) \<subseteq> ran (m_KeyToIP s)"
    and "dom (m_IPToKey (snd (AllocateNewAddress s))) \<subseteq>
      insert (fst (AllocateNewAddress s)) (dom (m_IPToKey s))"
    and "m_IPActivity (snd (AllocateNewAddress s)) = m_IPActivity s"
    and "m_NextAddr (snd (AllocateNewAddress s)) = m_NextAddr s"
    and "m_IfAddr (snd (AllocateNewAddress s)) = m_IfAddr s"
    and "m_HigestAddr (snd (AllocateNewAddress s)) = m_HigestAddr s"
proof -
  define found where "found = fst (oldest (m_IPActivity s) (0, llarp_time_max))"
  define pk where "pk = (case m_IPToKey s found of Some k \<Rightarrow> k | None \<Rightarrow> 0)"
  define i2k where "i2k = (case m_IPToKey s found of Some k \<Rightarrow> m_IPToKey s
    | None \<Rightarrow> (m_IPToKey s)(found \<mapsto> 0))"
  have a: "AllocateNewAddress s = (found, KickIdentOffExit (s\<lparr>m_IPToKey := i2k\<rparr>) pk)"
    using assms
    by (simp add: AllocateNewAddress_def index_default_def Let_def found_def pk_def i2k_def
        split: option.splits)
  have d: "dom i2k \<subseteq> insert found (dom (m_IPToKey s))"
    by (auto simp: i2k_def split: option.splits)
  show "ran (m_KeyToIP (snd (AllocateNewAddress s))) \<subseteq> ran (m_KeyToIP s)"
    unfolding a by (auto simp: KickIdentOffExit_fields(1) ran_def)
  show "dom (m_IPToKey (snd (AllocateNewAddress s))) \<subseteq>
      insert (fst (AllocateNewAddress s)) (dom (m_IPToKey s))"
    unfolding a using d
    by (cases "m_KeyToIP s pk") (auto simp: KickIdentOffExit_fields(2,3))
  show "m_IPActivity (snd (AllocateNewAddress s)) = m_IPActivity s"
    and "m_NextAddr (snd (AllocateNewAddress s)) = m_NextAddr s"
    and "m_IfAddr (snd (AllocateNewAddress s)) = m_IfAddr s"
    and "m_HigestAddr (snd (AllocateNewAddress s)) = m_HigestAddr s"
    unfolding a by (simp_all add: KickIdentOffExit_def split: prod.splits)
qed

lemma pool_inv_AllocateNewAddress:
  assumes "pool_inv s"
  shows "pool_inv (snd (AllocateNewAddress s))"
    and "fst (AllocateNewAddress s) \<le> m_NextAddr (snd (AllocateNewAddress s))"
    and "m_NextAddr s \<le> m_NextAddr (snd (AllocateNewAddress s))"
proof -
  have "pool_inv (snd (AllocateNewAddress s)) \<and>
      fst (AllocateNewAddress s) \<le> m_NextAddr (snd (AllocateNewAddress s)) \<and>
      m_NextAddr s \<le> m_NextAddr (snd (AllocateNewAddress s))"
  proof (cases "m_NextAddr s < m_HigestAddr s")
    case True
    then have "m_NextAddr s < m_NextAddr s + 1"
      by (rule word_less_succ)
    then have le: "\<And>ip. ip \<le> m_NextAddr s \<Longrightarrow> ip \<le> m_NextAddr s + 1"
      by simp
    from assms show ?thesis
      unfolding AllocateNewAddress_fresh [OF True] by (auto simp: pool_inv_def intro!: le)
  next
    case False
    note f = AllocateNewAddress_evict_fields [OF False]
    have "fst (AllocateNewAddress s) \<in> insert 0 (fst ` set (m_IPActivity s))"
      unfolding AllocateNewAddress_found [OF False] by (rule oldest_fst_mem)
    with assms have b: "fst (AllocateNewAddress s) \<le> m_NextAddr s"
      by (auto simp: pool_inv_def)
    have "pool_inv (snd (AllocateNewAddress s))"
      unfolding pool_inv_def f(3,4,5)
      using assms f(1,2) b by (auto simp: pool_inv_def)
    with b show ?thesis
      by (simp add: f(4))
  qed
  then show "pool_inv (snd (AllocateNewAddress s))"
    and "fst (AllocateNewAddress s) \<le> m_NextAddr (snd (AllocateNewAddress s))"
    and "m_NextAddr s \<le> m_NextAddr (snd (AllocateNewAddress s))"
    by simp_all
qed

lemma fst_set_assign:
  "fst ` set (assign xs k v) = insert k (fst ` set xs)"
proof (induction xs)
  case Nil
  show ?case by simp
next
  case (Cons x xs)
  obtain k' v' where x: "x = (k', v')"
    by (cases x)
  show ?case
  proof (cases "k' = k")
    case True
    with x show ?thesis by simp
  next
    case False
    with x Cons.IH show ?thesis by (simp add: insert_commute)
  qed
qed

lemma map_of_assign:
  "map_of (assign xs k v) = (map_of xs)(k \<mapsto> v)"
  by (induction xs) auto

lemma GetIPForIdent_unmapped_fields:
  assumes n: "m_KeyToIP s pk = None" and a: "AllocateNewAddress s = (found, s1)"
  shows "fst (GetIPForIdent s pk now) = found"
    and "m_KeyToIP (snd (GetIPForIdent s pk now)) = (m_KeyToIP s1)(pk \<mapsto> found)"
    and "m_IPToKey (snd (GetIPForIdent s pk now)) =
      (if m_IPToKey s1 found \<noteq> None then m_IPToKey s1 else (m_IPToKey s1)(found \<mapsto> pk))"
    and "m_IPActivity (snd (GetIPForIdent s pk now)) =
      (if m_IPToKey s1 found \<noteq> None then m_IPActivity s1
       else assign (m_IPActivity s1) found now)"
    and "m_NextAddr (snd (GetIPForIdent s pk now)) = m_NextAddr s1"
    and "m_IfAddr (snd (GetIPForIdent s pk now)) = m_IfAddr s1"
    and "m_HigestAddr (snd (GetIPForIdent s pk now)) = m_HigestAddr s1"
  by (simp_all add: GetIPForIdent_unmapped [OF n a] MarkIPActive_def)

lemma GetIPForIdent_mapped_fields:
  assumes "m_KeyToIP s pk = Some ip"
  shows "fst (GetIPForIdent s pk now) = ip"
    and "m_KeyToIP (snd (GetIPForIdent s pk now)) = m_KeyToIP s"
    and "m_IPToKey (snd (GetIPForIdent s pk now)) = m_IPToKey s"
    and "m_IPActivity (snd (GetIPForIdent s pk now)) = assign (m_IPActivity s) ip now"
    and "m_NextAddr (snd (GetIPForIdent s pk now)) = m_NextAddr s"
    and "m_IfAddr (snd (GetIPForIdent s pk now)) = m_IfAddr s"
    and "m_HigestAddr (snd (GetIPForIdent s pk now)) = m_HigestAddr s"
  by (simp_all add: GetIPForIdent_mapped [OF assms] MarkIPActive_def)

lemma ran_upd_subset:
  "ran (m(k \<mapsto> v)) \<subseteq> insert v (ran m)"
  by (auto simp: ran_def)

text \<open>The other operations touch the pool and the identity map only through \<^verbatim>\<open>GetIPForIdent\<close>.\<close>

lemma ObtainServiceNodeIP_fields:
  "m_KeyToIP (snd (ObtainServiceNodeIP ll s pk now)) = m_KeyToIP (snd (GetIPForIdent s pk now))"
  "m_IPToKey (snd (ObtainServiceNodeIP ll s pk now)) = m_IPToKey (snd (GetIPForIdent s pk now))"
  "m_IPActivity (snd (ObtainServiceNodeIP ll s pk now)) =
     m_IPActivity (snd (GetIPForIdent s pk now))"
  "m_NextAddr (snd (ObtainServiceNodeIP ll s pk now)) = m_NextAddr (snd (GetIPForIdent s pk now))"
  "m_IfAddr (snd (ObtainServiceNodeIP ll s pk now)) = m_IfAddr (snd (GetIPForIdent s pk now))"
  "m_HigestAddr (snd (ObtainServiceNodeIP ll s pk now)) =
     m_HigestAddr (snd (GetIPForIdent s pk now))"
proof -
  obtain ip s1 where g: "GetIPForIdent s pk now = (ip, s1)"
    by (cases "GetIPForIdent s pk now")
  show "m_KeyToIP (snd (ObtainServiceNodeIP ll s pk now)) = m_KeyToIP (snd (GetIPForIdent s pk now))"
    "m_IPToKey (snd (ObtainServiceNodeIP ll s pk now)) = m_IPToKey (snd (GetIPForIdent s pk now))"
    "m_IPActivity (snd (ObtainServiceNodeIP ll s pk now)) =
       m_IPActivity (snd (GetIPForIdent s pk now))"
    "m_NextAddr (snd (ObtainServiceNodeIP ll s pk now)) = m_NextAddr (snd (GetIPForIdent s pk now))"
    "m_IfAddr (snd (ObtainServiceNodeIP ll s pk now)) = m_IfAddr (snd (GetIPForIdent s pk now))"
    "m_HigestAddr (snd (ObtainServiceNodeIP ll s pk now)) =
       m_HigestAddr (snd (GetIPForIdent s pk now))"
    by (simp_all add: ObtainServiceNodeIP_def g)
qed

lemma AllocateNewExit_fields:
  assumes "\<not> (wantInternet \<and> \<not> m_PermitExit s)"
  shows
    "m_KeyToIP (snd (AllocateNewExit ll s pk path wantInternet prevIsRouter now p)) =
       m_KeyToIP (snd (GetIPForIdent s pk now))"
    "m_IPToKey (snd (AllocateNewExit ll s pk path wantInternet prevIsRouter now p)) =
       m_IPToKey (snd (GetIPForIdent s pk now))"
    "m_IPActivity (snd (AllocateNewExit ll s pk path wantInternet prevIsRouter now p)) =
       m_IPActivity (snd (GetIPForIdent s pk now))"
    "m_NextAddr (snd (AllocateNewExit ll s pk path wantInternet prevIsRouter now p)) =
       m_NextAddr (snd (GetIPForIdent s pk now))"
    "m_IfAddr (snd (AllocateNewExit ll s pk path wantInternet prevIsRouter now p)) =
       m_IfAddr (snd (GetIPForIdent s pk now))"
    "m_HigestAddr (snd (AllocateNewExit ll s pk path wantInternet prevIsRouter now p)) =
       m_HigestAddr (snd (GetIPForIdent s pk now))"
proof -
  obtain ip s1 where g: "GetIPForIdent s pk now = (ip, s1)"
    by (cases "GetIPForIdent s pk now")
  from assms have c: "(wantInternet \<and> \<not> m_PermitExit s) = False"
    by simp
  show
    "m_KeyToIP (snd (AllocateNewExit ll s pk path wantInternet prevIsRouter now p)) =
       m_KeyToIP (snd (GetIPForIdent s pk now))"
    "m_IPToKey (snd (AllocateNewExit ll s pk path wantInternet prevIsRouter now p)) =
       m_IPToKey (snd (GetIPForIdent s pk now))"
    "m_IPActivity (snd (AllocateNewExit ll s pk path wantInternet prevIsRouter now p)) =
       m_IPActivity (snd (GetIPForIdent s pk now))"
    "m_NextAddr (snd (AllocateNewExit ll s pk path wantInternet prevIsRouter now p)) =
       m_NextAddr (snd (GetIPForIdent s pk now))"
    "m_IfAddr (snd (AllocateNewExit ll s pk path wantInternet prevIsRouter now p)) =
       m_IfAddr (snd (GetIPForIdent s pk now))"
    "m_HigestAddr (snd (AllocateNewExit ll s pk path wantInternet prevIsRouter now p)) =
       m_HigestAddr (snd (GetIPForIdent s pk now))"
    by (simp_all only: AllocateNewExit_def c if_False Let_def g prod.case snd_conv)
      (simp_all split: if_splits)
qed

lemma AllocateNewExit_refused:
  "wantInternet \<and> \<not> m_PermitExit s \<Longrightarrow>
   snd (AllocateNewExit ll s pk path wantInternet prevIsRouter now p) = s"
  by (simp add: AllocateNewExit_def)

lemma ball_assign:
  "(\<forall>x \<in> set (assign xs k v). P (fst x)) \<longleftrightarrow> P k \<and> (\<forall>x \<in> set xs. P (fst x))"
proof -
  have "(\<forall>x \<in> set (assign xs k v). P (fst x)) \<longleftrightarrow> (\<forall>ip \<in> fst ` set (assign xs k v). P ip)"
    by simp
  also have "\<dots> \<longleftrightarrow> (\<forall>ip \<in> insert k (fst ` set xs). P ip)"
    by (simp only: fst_set_assign)
  finally show ?thesis
    by simp
qed

lemma pool_inv_GetIPForIdent:
  assumes "pool_inv s"
  shows "pool_inv (snd (GetIPForIdent s pk now))"
    and "m_NextAddr s \<le> m_NextAddr (snd (GetIPForIdent s pk now))"
proof -
  have "pool_inv (snd (GetIPForIdent s pk now)) \<and>
      m_NextAddr s \<le> m_NextAddr (snd (GetIPForIdent s pk now))"
  proof (cases "m_KeyToIP s pk")
    case None
    obtain found s1 where a: "AllocateNewAddress s = (found, s1)"
      by (cases "AllocateNewAddress s")
    note f = GetIPForIdent_unmapped_fields [OF None a]
    from pool_inv_AllocateNewAddress [OF assms] a
    have p: "pool_inv s1" "found \<le> m_NextAddr s1" "m_NextAddr s \<le> m_NextAddr s1"
      by simp_all
    have r: "\<forall>ip \<in> ran ((m_KeyToIP s1)(pk \<mapsto> found)). ip \<le> m_NextAddr s1"
      using p(1,2) ran_upd_subset [of "m_KeyToIP s1" pk found]
      by (auto simp: pool_inv_def)
    have d: "\<forall>ip \<in> dom (if m_IPToKey s1 found \<noteq> None then m_IPToKey s1
        else (m_IPToKey s1)(found \<mapsto> pk)). ip \<le> m_NextAddr s1"
      using p(1,2) by (auto simp: pool_inv_def)
    have c: "\<forall>ip \<in> fst ` set (if m_IPToKey s1 found \<noteq> None then m_IPActivity s1
       else assign (m_IPActivity s1) found now). ip \<le> m_NextAddr s1"
      using p(1,2)
      by (simp add: pool_inv_def ball_assign [where P = "\<lambda>ip. ip \<le> m_NextAddr s1"] ball_Un)
    have "pool_inv (snd (GetIPForIdent s pk now))"
      unfolding pool_inv_def f(2-6) using r d c p(1) by (simp add: pool_inv_def ball_Un)
    with p(3) show ?thesis
      by (simp add: f(5))
  next
    case (Some ip)
    note f = GetIPForIdent_mapped_fields [OF Some]
    from Some have "ip \<in> ran (m_KeyToIP s)"
      by (auto simp: ran_def)
    with assms have "ip \<le> m_NextAddr s"
      by (simp add: pool_inv_def)
    with assms have "pool_inv (snd (GetIPForIdent s pk now))"
      unfolding pool_inv_def f(2-6)
      by (simp add: ball_assign [where P = "\<lambda>ip. ip \<le> m_NextAddr s"] ball_Un)
    then show ?thesis
      by (simp add: f(5))
  qed
  then show "pool_inv (snd (GetIPForIdent s pk now))"
    and "m_NextAddr s \<le> m_NextAddr (snd (GetIPForIdent s pk now))"
    by simp_all
qed

lemma KickIdentOffExit_pool_fields:
  "m_IPActivity (KickIdentOffExit s pk) = m_IPActivity s"
  "m_NextAddr (KickIdentOffExit s pk) = m_NextAddr s"
  "m_IfAddr (KickIdentOffExit s pk) = m_IfAddr s"
  "m_HigestAddr (KickIdentOffExit s pk) = m_HigestAddr s"
  by (simp_all add: KickIdentOffExit_def split: prod.splits)

lemma pool_inv_KickIdentOffExit:
  assumes "pool_inv s"
  shows "pool_inv (KickIdentOffExit s pk)"
proof -
  have r: "ran ((m_KeyToIP s)(pk := None)) \<subseteq> ran (m_KeyToIP s)"
    by (auto simp: ran_def)
  have d: "dom (m_IPToKey (KickIdentOffExit s pk)) \<subseteq> dom (m_IPToKey s)"
    by (cases "m_KeyToIP s pk") (auto simp: KickIdentOffExit_fields(2,3))
  show ?thesis
    unfolding pool_inv_def KickIdentOffExit_pool_fields KickIdentOffExit_fields(1)
    using assms r d by (auto simp: pool_inv_def)
qed

lemma pool_inv_im_step:
  assumes "pool_inv s"
  shows "pool_inv (im_step ll s c) \<and> m_NextAddr s \<le> m_NextAddr (im_step ll s c)"
proof (cases c)
  case (Call_GetIPForIdent pk now)
  with pool_inv_GetIPForIdent [OF assms, of pk now] show ?thesis
    by simp
next
  case (Call_AllocateNewExit pk path wantInternet prevIsRouter now p)
  show ?thesis
  proof (cases "wantInternet \<and> \<not> m_PermitExit s")
    case True
    with assms Call_AllocateNewExit show ?thesis
      by (simp add: AllocateNewExit_refused)
  next
    case False
    note f = AllocateNewExit_fields [OF False, of ll pk path prevIsRouter now p]
    from pool_inv_GetIPForIdent [OF assms, of pk now] show ?thesis
      unfolding Call_AllocateNewExit im_step.simps pool_inv_def f by simp
  qed
next
  case (Call_ObtainServiceNodeIP pk now)
  note f = ObtainServiceNodeIP_fields [of ll s pk now]
  from pool_inv_GetIPForIdent [OF assms, of pk now] show ?thesis
    unfolding Call_ObtainServiceNodeIP im_step.simps pool_inv_def f by simp
next
  case (Call_KickIdentOffExit pk)
  with pool_inv_KickIdentOffExit [OF assms, of pk] show ?thesis
    by (simp add: KickIdentOffExit_pool_fields)
qed

lemma GetIPForIdent_allocated_bound:
  assumes "pool_inv s" and "\<not> HasLocalMappedAddrFor s pk"
  shows "fst (AllocateNewAddress s) \<le> m_NextAddr (snd (GetIPForIdent s pk now))"
proof -
  obtain found s1 where a: "AllocateNewAddress s = (found, s1)"
    by (cases "AllocateNewAddress s")
  from assms(2) have n: "m_KeyToIP s pk = None"
    by (simp add: HasLocalMappedAddrFor_def)
  from pool_inv_AllocateNewAddress(2) [OF assms(1)] a
  show ?thesis
    by (simp add: GetIPForIdent_unmapped_fields(5) [OF n a])
qed

lemma im_allocated_bound:
  assumes "pool_inv s"
  shows "\<forall>ip \<in> set (im_allocated s c). ip \<le> m_NextAddr (im_step ll s c)"
proof (cases c)
  case (Call_GetIPForIdent pk now)
  with GetIPForIdent_allocated_bound [OF assms, of pk now] show ?thesis
    by simp
next
  case (Call_AllocateNewExit pk path wantInternet prevIsRouter now p)
  show ?thesis
  proof (cases "wantInternet \<and> \<not> m_PermitExit s")
    case True
    with Call_AllocateNewExit show ?thesis
      by simp
  next
    case False
    note f = AllocateNewExit_fields(4) [OF False, of ll pk path prevIsRouter now p]
    from False GetIPForIdent_allocated_bound [OF assms, of pk now] show ?thesis
      unfolding Call_AllocateNewExit im_step.simps f by simp
  qed
next
  case (Call_ObtainServiceNodeIP pk now)
  from GetIPForIdent_allocated_bound [OF assms, of pk now] show ?thesis
    unfolding Call_ObtainServiceNodeIP im_step.simps ObtainServiceNodeIP_fields(4) by simp
next
  case (Call_KickIdentOffExit pk)
  then show ?thesis
    by simp
qed

lemma pool_inv_im_run:
  "pool_inv s \<Longrightarrow>
   pool_inv (im_run ll s calls) \<and> m_NextAddr s \<le> m_NextAddr (im_run ll s calls) \<and>
   (\<forall>ip \<in> set (allocations ll s calls). ip \<le> m_NextAddr (im_run ll s calls))"
proof (induction calls arbitrary: s)
  case Nil
  then show ?case
    by (simp add: im_run_def)
next
  case (Cons c calls)
  from pool_inv_im_step [OF Cons.prems, of ll c]
  have p: "pool_inv (im_step ll s c)" and m: "m_NextAddr s \<le> m_NextAddr (im_step ll s c)"
    by simp_all
  from Cons.IH [OF p]
  have ih: "pool_inv (im_run ll (im_step ll s c) calls)"
    "m_NextAddr (im_step ll s c) \<le> m_NextAddr (im_run ll (im_step ll s c) calls)"
    "\<forall>ip \<in> set (allocations ll (im_step ll s c) calls).
       ip \<le> m_NextAddr (im_run ll (im_step ll s c) calls)"
    by simp_all
  have r: "im_run ll s (c # calls) = im_run ll (im_step ll s c) calls"
    by (simp add: im_run_def)
  from im_allocated_bound [OF Cons.prems, of c ll] ih(2)
  have "\<forall>ip \<in> set (im_allocated s c). ip \<le> m_NextAddr (im_run ll (im_step ll s c) calls)"
    by (meson order_trans)
  with ih m show ?case
    unfolding r by (auto intro: order_trans)
qed

lemma pool_inv_configured:
  "constructed s0 \<Longrightarrow> pool_inv (SetOption_ifaddr s0 ifaddr nm)"
  by (simp add: constructed_def pool_inv_def SetOption_ifaddr_def)

text \<open>
  C3, amended. On an endpoint that was configured with \<^verbatim>\<open>ifaddr\<close> and then used through
  the public operations: whenever \<^verbatim>\<open>m_NextAddr < m_HigestAddr\<close>, \<^verbatim>\<open>AllocateNewAddress\<close>
  returns \<^verbatim>\<open>++m_NextAddr\<close>, an address strictly above \<^verbatim>\<open>m_IfAddr\<close> and at most
  \<^verbatim>\<open>m_HigestAddr\<close> that no earlier call of \<^verbatim>\<open>AllocateNewAddress\<close> returned and that
  neither map holds. Otherwise, if some activity time is below the largest value of
  \<^verbatim>\<open>llarp_time_t\<close>, it returns an address whose activity time is smallest: the first such
  entry the iteration over \<^verbatim>\<open>m_IPActivity\<close> reaches (every entry before it is strictly
  younger, every entry after it is not older). If that address is bound to a key, the key
  has been kicked when the call returns.
\<close>

theorem AllocateNewAddress_amended:
  assumes "constructed s0" and "s = im_run ll (SetOption_ifaddr s0 ifaddr nm) calls"
  shows
    "(m_NextAddr s < m_HigestAddr s \<longrightarrow>
        AllocateNewAddress s = (m_NextAddr s + 1, s\<lparr>m_NextAddr := m_NextAddr s + 1\<rparr>) \<and>
        m_IfAddr s < m_NextAddr s + 1 \<and> m_NextAddr s + 1 \<le> m_HigestAddr s \<and>
        m_NextAddr s + 1 \<notin> set (allocations ll (SetOption_ifaddr s0 ifaddr nm) calls) \<and>
        m_NextAddr s + 1 \<notin> ran (m_KeyToIP s) \<union> dom (m_IPToKey s)) \<and>
     (\<not> m_NextAddr s < m_HigestAddr s \<and> (\<exists>(ip, t) \<in> set (m_IPActivity s). t < llarp_time_max) \<longrightarrow>
        (\<exists>pre ip t post.
           fst (AllocateNewAddress s) = ip \<and>
           m_IPActivity s = pre @ (ip, t) # post \<and>
           (\<forall>(ip', t') \<in> set pre. t < t') \<and> (\<forall>(ip', t') \<in> set post. t \<le> t') \<and>
           (\<forall>k. m_IPToKey s ip = Some k \<longrightarrow>
              snd (AllocateNewAddress s) = KickIdentOffExit s k)))"
proof (intro conjI impI)
  assume lt: "m_NextAddr s < m_HigestAddr s"
  from pool_inv_im_run [OF pool_inv_configured [OF assms(1)], of ll ifaddr nm calls] assms(2)
  have p: "pool_inv s"
    and al: "\<forall>ip \<in> set (allocations ll (SetOption_ifaddr s0 ifaddr nm) calls). ip \<le> m_NextAddr s"
    by simp_all
  from lt have up: "m_NextAddr s < m_NextAddr s + 1"
    by (rule word_less_succ)
  show "AllocateNewAddress s = (m_NextAddr s + 1, s\<lparr>m_NextAddr := m_NextAddr s + 1\<rparr>)"
    using lt by (rule AllocateNewAddress_fresh)
  from p have "m_IfAddr s \<le> m_NextAddr s"
    by (simp add: pool_inv_def)
  from this up show "m_IfAddr s < m_NextAddr s + 1"
    by (rule le_less_trans)
  show "m_NextAddr s + 1 \<le> m_HigestAddr s"
    using lt by (rule inc_le)
  show "m_NextAddr s + 1 \<notin> set (allocations ll (SetOption_ifaddr s0 ifaddr nm) calls)"
    using al up by (auto simp: not_le [symmetric])
  show "m_NextAddr s + 1 \<notin> ran (m_KeyToIP s) \<union> dom (m_IPToKey s)"
  proof
    assume "m_NextAddr s + 1 \<in> ran (m_KeyToIP s) \<union> dom (m_IPToKey s)"
    with p have "m_NextAddr s + 1 \<le> m_NextAddr s"
      unfolding pool_inv_def by blast
    with up show False
      by simp
  qed
next
  assume a: "\<not> m_NextAddr s < m_HigestAddr s \<and>
    (\<exists>(ip, t) \<in> set (m_IPActivity s). t < llarp_time_max)"
  then have full: "\<not> m_NextAddr s < m_HigestAddr s"
    and some: "\<exists>(ip, t) \<in> set (m_IPActivity s). t < llarp_time_max"
    by blast+
  obtain ip t where o: "oldest (m_IPActivity s) (0, llarp_time_max) = (ip, t)"
    by (cases "oldest (m_IPActivity s) (0, llarp_time_max)")
  from oldest_cases [OF o] some
  obtain pre post where sp: "m_IPActivity s = pre @ (ip, t) # post"
    "\<forall>(ip', t') \<in> set pre. t < t'" "\<forall>(ip', t') \<in> set post. t \<le> t'"
    by (fastforce simp: not_le [symmetric])
  have f: "fst (AllocateNewAddress s) = ip"
    by (simp add: AllocateNewAddress_found [OF full] o)
  have k: "\<forall>k. m_IPToKey s ip = Some k \<longrightarrow> snd (AllocateNewAddress s) = KickIdentOffExit s k"
  proof (intro allI impI)
    fix k
    assume "m_IPToKey s ip = Some k"
    then have "m_IPToKey s (fst (oldest (m_IPActivity s) (0, llarp_time_max))) = Some k"
      by (simp add: o)
    from AllocateNewAddress_evicts [OF full this]
    show "snd (AllocateNewAddress s) = KickIdentOffExit s k"
      by simp
  qed
  from f sp k show "\<exists>pre ip t post.
           fst (AllocateNewAddress s) = ip \<and>
           m_IPActivity s = pre @ (ip, t) # post \<and>
           (\<forall>(ip', t') \<in> set pre. t < t') \<and> (\<forall>(ip', t') \<in> set post. t \<le> t') \<and>
           (\<forall>k. m_IPToKey s ip = Some k \<longrightarrow>
              snd (AllocateNewAddress s) = KickIdentOffExit s k)"
    by blast
qed

lemma one_client_facts:
  "m_NextAddr (im_run simple_ll slash30 [Call_GetIPForIdent 1 10]) <
     m_HigestAddr (im_run simple_ll slash30 [Call_GetIPForIdent 1 10])"
  "m_NextAddr (im_run simple_ll slash30 [Call_GetIPForIdent 1 10]) + 1 = 0x0A000003"
  "allocations simple_ll slash30 [Call_GetIPForIdent 1 10] = [0x0A000002]"
  by (simp_all add: endpoint_defs)

theorem AllocateNewAddress_amended_witness:
  "constructed fresh_endpoint \<and>
   m_NextAddr (im_run simple_ll slash30 [Call_GetIPForIdent 1 10]) <
     m_HigestAddr (im_run simple_ll slash30 [Call_GetIPForIdent 1 10]) \<and>
   fst (AllocateNewAddress (im_run simple_ll slash30 [Call_GetIPForIdent 1 10])) = 0x0A000003 \<and>
   0x0A000003 \<notin> set (allocations simple_ll slash30 [Call_GetIPForIdent 1 10]) \<and>
   \<not> m_NextAddr two_clients < m_HigestAddr two_clients \<and>
   m_IPActivity two_clients = [] @ (0x0A000002, 10) # [(0x0A000003, 20)] \<and>
   fst (AllocateNewAddress two_clients) = 0x0A000002 \<and>
   snd (AllocateNewAddress two_clients) = KickIdentOffExit two_clients 1"
proof -
  have c: "constructed fresh_endpoint"
    by (simp add: constructed_def fresh_endpoint_def)
  have act: "m_IPActivity two_clients = [] @ (0x0A000002, 10) # [(0x0A000003, 20)]"
    by (simp add: two_clients_def endpoint_defs)
  then have some: "\<exists>(ip, t) \<in> set (m_IPActivity two_clients). t < llarp_time_max"
    by (simp add: llarp_time_max_def)
  from AllocateNewAddress_amended [OF c, of "im_run simple_ll slash30 [Call_GetIPForIdent 1 10]"
      simple_ll "0x0A000001" "0xFFFFFFFC" "[Call_GetIPForIdent 1 10]"]
    one_client_facts
  have a: "fst (AllocateNewAddress (im_run simple_ll slash30 [Call_GetIPForIdent 1 10])) = 0x0A000003"
    "0x0A000003 \<notin> set (allocations simple_ll slash30 [Call_GetIPForIdent 1 10])"
    by (simp_all add: slash30_def)
  from AllocateNewAddress_amended [OF c, of two_clients simple_ll "0x0A000001" "0xFFFFFFFC"
      "[Call_AllocateNewExit 1 1 False False 10 1, Call_AllocateNewExit 2 2 False False 20 2]"]
    two_clients_facts some
  have b: "snd (AllocateNewAddress two_clients) = KickIdentOffExit two_clients 1"
    by (auto simp: two_clients_def slash30_def)
  from c one_client_facts(1) a two_clients_facts(2,3) act b show ?thesis
    by simp
qed

text \<open>
  With two addresses tied for the oldest activity time, the result is the one the activity
  map iterates to first, whichever of the two addresses is smaller.
\<close>

theorem AllocateNewAddress_tie_counterexample:
  "set (m_IPActivity tied_high_first) = set (m_IPActivity tied_low_first) \<and>
   fst (AllocateNewAddress tied_high_first) = 0x0A000003 \<and>
   fst (AllocateNewAddress tied_low_first) = 0x0A000002"
  by (simp add: tied_high_first_def tied_low_first_def two_clients_def endpoint_defs insert_commute)

subsection \<open>Activity times\<close>

lemma AllocateNewAddress_evict_empty:
  assumes "\<not> m_NextAddr s < m_HigestAddr s" and "m_IPActivity s = []"
    and "m_KeyToIP s = Map.empty"
  shows "fst (AllocateNewAddress s) = 0" and "m_IPToKey (snd (AllocateNewAddress s)) 0 = None"
  using assms
  by (simp_all add: AllocateNewAddress_def KickIdentOffExit_def index_default_def Let_def
      split: option.splits)

lemma AllocateNewAddress_evict_mem:
  assumes full: "\<not> m_NextAddr s < m_HigestAddr s" and ne: "m_IPActivity s \<noteq> []"
    and lt: "\<forall>(ip, t) \<in> set (m_IPActivity s). t < llarp_time_max"
  shows "fst (AllocateNewAddress s) \<in> fst ` set (m_IPActivity s)"
proof -
  obtain ip t where o: "oldest (m_IPActivity s) (0, llarp_time_max) = (ip, t)"
    by (cases "oldest (m_IPActivity s) (0, llarp_time_max)")
  from ne obtain x where "x \<in> set (m_IPActivity s)"
    by (cases "m_IPActivity s") auto
  with lt have "\<not> (\<forall>(ip', t') \<in> set (m_IPActivity s). llarp_time_max \<le> t')"
    by (fastforce simp: not_le)
  with oldest_cases [OF o] obtain pre post where "m_IPActivity s = pre @ (ip, t) # post"
    by blast
  then have "ip \<in> fst ` set (m_IPActivity s)"
    by force
  then show ?thesis
    by (simp add: AllocateNewAddress_found [OF full] o)
qed

lemma set_assign_subset:
  "set (assign xs k v) \<subseteq> insert (k, v) (set xs)"
  by (induction xs) (auto split: if_splits)

lemma activity_after_mark:
  assumes sub: "ran k2i \<subseteq> fst ` set act"
    and lt: "\<forall>(ip, t) \<in> set act. t < llarp_time_max"
    and now: "now < llarp_time_max"
    and q: "q \<longrightarrow> found \<in> fst ` set act"
  shows "ran (k2i(pk \<mapsto> found)) \<subseteq> fst ` set (if q then act else assign act found now)"
    and "\<forall>(ip, t) \<in> set (if q then act else assign act found now). t < llarp_time_max"
proof -
  have r: "ran (k2i(pk \<mapsto> found)) \<subseteq> insert found (ran k2i)"
    by (rule ran_upd_subset)
  show "ran (k2i(pk \<mapsto> found)) \<subseteq> fst ` set (if q then act else assign act found now)"
  proof (cases q)
    case True
    with q sub r show ?thesis
      by auto
  next
    case False
    with sub r show ?thesis
      by (auto simp: fst_set_assign)
  qed
  have "set (assign act found now) \<subseteq> insert (found, now) (set act)"
    by (rule set_assign_subset)
  with lt now show "\<forall>(ip, t) \<in> set (if q then act else assign act found now). t < llarp_time_max"
    by auto
qed

lemma activity_inv_GetIPForIdent:
  assumes p: "pool_inv s" and a: "activity_inv s" and now: "now < llarp_time_max"
  shows "activity_inv (snd (GetIPForIdent s pk now))"
proof -
  from a have sub: "ran (m_KeyToIP s) \<subseteq> fst ` set (m_IPActivity s)"
    and lt: "\<forall>(ip, t) \<in> set (m_IPActivity s). t < llarp_time_max"
    by (simp_all add: activity_inv_def)
  show ?thesis
  proof (cases "m_KeyToIP s pk")
    case (Some ip)
    note f = GetIPForIdent_mapped_fields [OF Some]
    have "set (assign (m_IPActivity s) ip now) \<subseteq> insert (ip, now) (set (m_IPActivity s))"
      by (rule set_assign_subset)
    with lt now have "\<forall>(ip', t) \<in> set (assign (m_IPActivity s) ip now). t < llarp_time_max"
      by auto
    with sub show ?thesis
      unfolding activity_inv_def f(2,4) fst_set_assign by auto
  next
    case None
    obtain found s1 where al: "AllocateNewAddress s = (found, s1)"
      by (cases "AllocateNewAddress s")
    note f = GetIPForIdent_unmapped_fields [OF None al]
    have "ran (m_KeyToIP s1) \<subseteq> fst ` set (m_IPActivity s1) \<and>
      (\<forall>(ip, t) \<in> set (m_IPActivity s1). t < llarp_time_max) \<and>
      (m_IPToKey s1 found \<noteq> None \<longrightarrow> found \<in> fst ` set (m_IPActivity s1))"
    proof (cases "m_NextAddr s < m_HigestAddr s")
      case True
      from AllocateNewAddress_fresh [OF True] al
      have s1: "s1 = s\<lparr>m_NextAddr := m_NextAddr s + 1\<rparr>" and fo: "found = m_NextAddr s + 1"
        by simp_all
      from True have up: "m_NextAddr s < m_NextAddr s + 1"
        by (rule word_less_succ)
      have "found \<notin> dom (m_IPToKey s)"
      proof
        assume "found \<in> dom (m_IPToKey s)"
        with p have "found \<le> m_NextAddr s"
          unfolding pool_inv_def by blast
        with up fo show False
          by simp
      qed
      then have "m_IPToKey s found = None"
        by auto
      with sub lt show ?thesis
        by (simp add: s1)
    next
      case False
      note e = AllocateNewAddress_evict_fields [OF False]
      from e(1,3) al have k1: "ran (m_KeyToIP s1) \<subseteq> ran (m_KeyToIP s)"
        and a1: "m_IPActivity s1 = m_IPActivity s"
        by simp_all
      have "m_IPToKey s1 found \<noteq> None \<longrightarrow> found \<in> fst ` set (m_IPActivity s)"
      proof (cases "m_IPActivity s = []")
        case True
        with sub have "ran (m_KeyToIP s) = {}"
          by simp
        then have "\<And>k. m_KeyToIP s k = None"
          by (auto simp: ran_def) (metis option.exhaust)
        then have "m_KeyToIP s = Map.empty"
          by (simp add: fun_eq_iff)
        from AllocateNewAddress_evict_empty [OF False True this] al
        show ?thesis
          by simp
      next
        case ne: False
        from AllocateNewAddress_evict_mem [OF False ne lt] al
        show ?thesis
          by simp
      qed
      with sub k1 lt show ?thesis
        unfolding a1 by blast
    qed
    then have 1: "ran (m_KeyToIP s1) \<subseteq> fst ` set (m_IPActivity s1)"
      and 2: "\<forall>(ip, t) \<in> set (m_IPActivity s1). t < llarp_time_max"
      and 3: "m_IPToKey s1 found \<noteq> None \<longrightarrow> found \<in> fst ` set (m_IPActivity s1)"
      by blast+
    from activity_after_mark(1) [OF 1 2 now 3, of pk] activity_after_mark(2) [OF 1 2 now 3]
    show ?thesis
      unfolding activity_inv_def f(2,4) by simp
  qed
qed

lemma activity_inv_KickIdentOffExit:
  assumes "activity_inv s"
  shows "activity_inv (KickIdentOffExit s pk)"
proof -
  have "ran ((m_KeyToIP s)(pk := None)) \<subseteq> ran (m_KeyToIP s)"
    by (auto simp: ran_def)
  with assms show ?thesis
    unfolding activity_inv_def KickIdentOffExit_pool_fields KickIdentOffExit_fields(1) by blast
qed

lemma activity_inv_im_step:
  assumes p: "pool_inv s" and a: "activity_inv s"
    and t: "\<forall>t. call_time c = Some t \<longrightarrow> t < llarp_time_max"
  shows "activity_inv (im_step ll s c)"
proof (cases c)
  case (Call_GetIPForIdent pk now)
  with t activity_inv_GetIPForIdent [OF p a, of now pk] show ?thesis
    by simp
next
  case (Call_AllocateNewExit pk path wantInternet prevIsRouter now p')
  show ?thesis
  proof (cases "wantInternet \<and> \<not> m_PermitExit s")
    case True
    with a Call_AllocateNewExit show ?thesis
      by (simp add: AllocateNewExit_refused)
  next
    case False
    note f = AllocateNewExit_fields [OF False, of ll pk path prevIsRouter now p']
    from t Call_AllocateNewExit have "now < llarp_time_max"
      by simp
    from activity_inv_GetIPForIdent [OF p a this, of pk] show ?thesis
      unfolding Call_AllocateNewExit im_step.simps activity_inv_def f by simp
  qed
next
  case (Call_ObtainServiceNodeIP pk now)
  note f = ObtainServiceNodeIP_fields [of ll s pk now]
  from t Call_ObtainServiceNodeIP have "now < llarp_time_max"
    by simp
  from activity_inv_GetIPForIdent [OF p a this, of pk] show ?thesis
    unfolding Call_ObtainServiceNodeIP im_step.simps activity_inv_def f by simp
next
  case (Call_KickIdentOffExit pk)
  with activity_inv_KickIdentOffExit [OF a, of pk] show ?thesis
    by simp
qed

lemma activity_inv_im_run:
  "pool_inv s \<Longrightarrow> activity_inv s \<Longrightarrow>
   \<forall>c \<in> set calls. \<forall>t. call_time c = Some t \<longrightarrow> t < llarp_time_max \<Longrightarrow>
   activity_inv (im_run ll s calls)"
proof (induction calls arbitrary: s)
  case Nil
  then show ?case
    by (simp add: im_run_def)
next
  case (Cons c calls)
  from Cons.prems(3) have t: "\<forall>t. call_time c = Some t \<longrightarrow> t < llarp_time_max"
    and ts: "\<forall>c \<in> set calls. \<forall>t. call_time c = Some t \<longrightarrow> t < llarp_time_max"
    by simp_all
  from pool_inv_im_step [OF Cons.prems(1), of ll c] have p: "pool_inv (im_step ll s c)"
    by simp
  from activity_inv_im_step [OF Cons.prems(1,2) t] have a: "activity_inv (im_step ll s c)" .
  from Cons.IH [OF p a ts] show ?case
    by (simp add: im_run_def)
qed

lemma activity_inv_configured:
  "constructed s0 \<Longrightarrow> activity_inv (SetOption_ifaddr s0 ifaddr nm)"
  by (simp add: constructed_def activity_inv_def SetOption_ifaddr_def)

text \<open>No operation removes an entry of \<^verbatim>\<open>m_IPActivity\<close>.\<close>

lemma AllocateNewAddress_activity:
  "m_IPActivity (snd (AllocateNewAddress s)) = m_IPActivity s"
proof (cases "m_NextAddr s < m_HigestAddr s")
  case True
  then show ?thesis
    by (simp add: AllocateNewAddress_fresh)
next
  case False
  then show ?thesis
    by (rule AllocateNewAddress_evict_fields(3))
qed

lemma GetIPForIdent_activity_grows:
  "fst ` set (m_IPActivity s) \<subseteq> fst ` set (m_IPActivity (snd (GetIPForIdent s pk now)))"
proof (cases "m_KeyToIP s pk")
  case None
  obtain found s1 where al: "AllocateNewAddress s = (found, s1)"
    by (cases "AllocateNewAddress s")
  with AllocateNewAddress_activity [of s] have "m_IPActivity s1 = m_IPActivity s"
    by simp
  then show ?thesis
    unfolding GetIPForIdent_unmapped_fields(4) [OF None al] by (auto simp: fst_set_assign)
next
  case (Some ip)
  show ?thesis
    unfolding GetIPForIdent_mapped_fields(4) [OF Some] fst_set_assign by blast
qed

lemma im_step_activity_grows:
  "fst ` set (m_IPActivity s) \<subseteq> fst ` set (m_IPActivity (im_step ll s c))"
proof (cases c)
  case (Call_GetIPForIdent pk now)
  with GetIPForIdent_activity_grows [of s pk now] show ?thesis
    by simp
next
  case (Call_AllocateNewExit pk path wantInternet prevIsRouter now p')
  show ?thesis
  proof (cases "wantInternet \<and> \<not> m_PermitExit s")
    case True
    with Call_AllocateNewExit show ?thesis
      by (simp add: AllocateNewExit_refused)
  next
    case False
    note f = AllocateNewExit_fields(3) [OF False, of ll pk path prevIsRouter now p']
    from GetIPForIdent_activity_grows [of s pk now] show ?thesis
      unfolding Call_AllocateNewExit im_step.simps f .
  qed
next
  case (Call_ObtainServiceNodeIP pk now)
  from GetIPForIdent_activity_grows [of s pk now] show ?thesis
    unfolding Call_ObtainServiceNodeIP im_step.simps ObtainServiceNodeIP_fields(3) .
next
  case (Call_KickIdentOffExit pk)
  then show ?thesis
    by (simp add: KickIdentOffExit_pool_fields)
qed

text \<open>
  C9, amended. Between the public operations on an endpoint configured with \<^verbatim>\<open>ifaddr\<close>,
  every address in the range of \<^verbatim>\<open>m_KeyToIP\<close> has an entry in \<^verbatim>\<open>m_IPActivity\<close>,
  provided the clock never reads the largest value of \<^verbatim>\<open>llarp_time_t\<close>. The activity map
  may hold more: no operation removes an entry of it, so the address of a kicked key
  keeps its time. \<^verbatim>\<open>MarkIPActive\<close> sets the time of the address to the current time and
  leaves the other entries alone, so a time does not decrease when the clock has not gone
  back.
\<close>

theorem activity_amended:
  assumes "constructed s0"
    and "\<forall>c \<in> set calls. \<forall>t. call_time c = Some t \<longrightarrow> t < llarp_time_max"
    and "s = im_run ll (SetOption_ifaddr s0 ifaddr nm) calls"
  shows
    "ran (m_KeyToIP s) \<subseteq> fst ` set (m_IPActivity s) \<and>
     (\<forall>c. fst ` set (m_IPActivity s) \<subseteq> fst ` set (m_IPActivity (im_step ll s c))) \<and>
     (\<forall>ip now. map_of (m_IPActivity (MarkIPActive s ip now)) = (map_of (m_IPActivity s))(ip \<mapsto> now)) \<and>
     (\<forall>ip now t. map_of (m_IPActivity s) ip = Some t \<and> t \<le> now \<longrightarrow>
        (\<exists>t'. map_of (m_IPActivity (MarkIPActive s ip now)) ip = Some t' \<and> t \<le> t'))"
proof -
  from activity_inv_im_run [OF pool_inv_configured [OF assms(1)]
      activity_inv_configured [OF assms(1)] assms(2), where ll = ll] assms(3)
  have "activity_inv s"
    by simp
  then have 1: "ran (m_KeyToIP s) \<subseteq> fst ` set (m_IPActivity s)"
    by (simp add: activity_inv_def)
  have 3: "\<And>ip now. map_of (m_IPActivity (MarkIPActive s ip now)) =
      (map_of (m_IPActivity s))(ip \<mapsto> now)"
    by (simp add: MarkIPActive_def map_of_assign)
  from 1 3 im_step_activity_grows [of s ll] show ?thesis
    by simp
qed

lemma kicked_client_facts:
  "m_IPActivity kicked_client = [(0x0A000002, 10)]"
  "map_of (m_IPActivity (MarkIPActive kicked_client 0x0A000002 15)) 0x0A000002 = Some 15"
  by (simp_all add: kicked_client_def endpoint_defs)

theorem activity_amended_witness:
  "constructed fresh_endpoint \<and>
   call_time (Call_GetIPForIdent 1 10) = Some 10 \<and> (10 :: llarp_time_t) < llarp_time_max \<and>
   call_time (Call_KickIdentOffExit 1) = None \<and>
   ran (m_KeyToIP kicked_client) \<subseteq> fst ` set (m_IPActivity kicked_client) \<and>
   map_of (m_IPActivity kicked_client) 0x0A000002 = Some 10 \<and> (10 :: llarp_time_t) \<le> 15 \<and>
   (\<exists>t'. map_of (m_IPActivity (MarkIPActive kicked_client 0x0A000002 15)) 0x0A000002 = Some t' \<and>
      10 \<le> t')"
proof -
  have c: "constructed fresh_endpoint"
    by (simp add: constructed_def fresh_endpoint_def)
  have t: "\<forall>c \<in> set [Call_GetIPForIdent 1 10, Call_KickIdentOffExit 1].
      \<forall>t. call_time c = Some t \<longrightarrow> t < llarp_time_max"
    by (simp add: llarp_time_max_def)
  have s: "kicked_client = im_run simple_ll (SetOption_ifaddr fresh_endpoint 0x0A000001 0xFFFFFFFC)
      [Call_GetIPForIdent 1 10, Call_KickIdentOffExit 1]"
    by (simp add: kicked_client_def slash30_def)
  have m: "map_of (m_IPActivity kicked_client) 0x0A000002 = Some 10" "(10 :: llarp_time_t) \<le> 15"
    by (simp_all add: kicked_client_facts)
  from activity_amended [OF c t s] m
  have "ran (m_KeyToIP kicked_client) \<subseteq> fst ` set (m_IPActivity kicked_client)"
    and "\<exists>t'. map_of (m_IPActivity (MarkIPActive kicked_client 0x0A000002 15)) 0x0A000002 = Some t' \<and>
      10 \<le> t'"
    by blast+
  with c m show ?thesis
    by (simp add: llarp_time_max_def)
qed

text \<open>After a key is kicked its address still has an activity time, and no key maps to it.\<close>

theorem activity_counterexample:
  "fst ` set (m_IPActivity kicked_client) = {0x0A000002} \<and> ran (m_KeyToIP kicked_client) = {}"
  by (simp add: kicked_client_def endpoint_defs)

subsection \<open>Tick\<close>

lemma deref_seen:
  assumes "p \<in> fst ` snd ` set seen"
  shows "deref (seen @ rest) p \<noteq> None"
proof -
  from assms obtain k e where "(k, p, e) \<in> set seen"
    by force
  then have "(p, e) \<in> set (map snd (seen @ rest))"
    by force
  from weak_map_of_SomeI [OF this]
  obtain x where "map_of (map snd (seen @ rest)) p = Some x" ..
  then show ?thesis
    unfolding deref_def by simp
qed

lemma pick_chosen_total:
  "(\<forall>k q. ch k = Some q \<longrightarrow> (\<exists>p. q = Some p \<and> p \<in> fst ` snd ` set seen)) \<Longrightarrow>
   \<exists>ch'. pick_chosen ll now seen todo ch = Some (ch', seen @ map (ticked ll now) todo)"
proof (induction todo arbitrary: seen ch)
  case Nil
  then show ?case by simp
next
  case (Cons x todo)
  obtain k p e where x: "x = (k, p, e)"
    by (cases x)
  let ?seen = "seen @ [(k, p, ep_Tick ll now e)]"
  have step: "\<And>ch'. (\<forall>k q. ch' k = Some q \<longrightarrow> (\<exists>p. q = Some p \<and> p \<in> fst ` snd ` set ?seen)) \<Longrightarrow>
      \<exists>ch''. pick_chosen ll now ?seen todo ch' = Some (ch'', seen @ map (ticked ll now) (x # todo))"
    using Cons.IH [of _ ?seen] by (simp add: x ticked_def)
  have A: "fst ` snd ` set ?seen = insert p (fst ` snd ` set seen)"
    by simp
  have keep: "\<forall>k q. ch k = Some q \<longrightarrow> (\<exists>p. q = Some p \<and> p \<in> fst ` snd ` set ?seen)"
    using Cons.prems unfolding A by blast
  have upd: "\<forall>k' q. (ch(k \<mapsto> Some p)) k' = Some q \<longrightarrow> (\<exists>p. q = Some p \<and> p \<in> fst ` snd ` set ?seen)"
    using Cons.prems unfolding A by (simp split: if_splits) blast
  show ?case
  proof (cases "ch k")
    case None
    with step [of ch, OF keep] step [of "ch(k \<mapsto> Some p)", OF upd] show ?thesis
      by (simp add: x)
  next
    case (Some q)
    with Cons.prems obtain q' where q: "q = Some q'" "q' \<in> fst ` snd ` set seen"
      by blast
    from deref_seen [OF q(2), of "(k, p, e) # todo"]
    obtain c where c: "deref (seen @ (k, p, e) # todo) q' = Some c"
      by auto
    from Some q c step [of ch, OF keep] step [of "ch(k \<mapsto> Some p)", OF upd] show ?thesis
      by (simp add: x)
  qed
qed

text \<open>
  C10, amended. \<^verbatim>\<open>Tick(now)\<close> never reads through a bad pointer. It removes every entry of
  \<^verbatim>\<open>m_SNodeSessions\<close> and of \<^verbatim>\<open>m_ActiveExits\<close> whose session is expired at \<open>now\<close>, and
  calls \<^verbatim>\<open>Tick(now)\<close> on the session of every remaining entry of \<^verbatim>\<open>m_ActiveExits\<close>, keeping
  their order and addresses. The remaining entries of \<^verbatim>\<open>m_SNodeSessions\<close> are left as they
  are: their sessions are not ticked.
\<close>

theorem Tick_expires_then_ticks_exits:
  "\<exists>ch. Tick ll s now =
     Some (s\<lparr>m_SNodeSessions := filter (\<lambda>(k, sn). \<not> sn_IsExpired ll sn now) (m_SNodeSessions s),
             m_ActiveExits :=
               map (\<lambda>(k, p, e). (k, p, ep_Tick ll now e))
                 (filter (\<lambda>(k, p, e). \<not> ep_IsExpired ll e now) (m_ActiveExits s)),
             m_ChosenExits := ch\<rparr>)"
proof -
  have "\<forall>k q. Map.empty k = Some q \<longrightarrow> (\<exists>p. q = Some p \<and> p \<in> fst ` snd ` set [])"
    by simp
  from pick_chosen_total [OF this, of ll now
      "filter (\<lambda>(k, p, e). \<not> ep_IsExpired ll e now) (m_ActiveExits s)"]
  obtain ch where "pick_chosen ll now []
      (filter (\<lambda>(k, p, e). \<not> ep_IsExpired ll e now) (m_ActiveExits s)) Map.empty =
    Some (ch, map (ticked ll now) (filter (\<lambda>(k, p, e). \<not> ep_IsExpired ll e now) (m_ActiveExits s)))"
    by auto
  then show ?thesis
    by (intro exI [of _ ch]) (simp add: Tick_def ticked_def)
qed

text \<open>
  A service-node session that is not expired comes out of \<^verbatim>\<open>Tick\<close> unchanged, though a
  call of its own \<^verbatim>\<open>Tick\<close> would have changed it.
\<close>

theorem Tick_snode_counterexample:
  "map_option m_SNodeSessions (Tick simple_ll one_snode 100) = Some (m_SNodeSessions one_snode) \<and>
   m_SNodeSessions one_snode = [(7, \<lparr>ss_expired = False, ss_accepts = True, ss_ticks = 0\<rparr>)] \<and>
   sn_Tick simple_ll 100 \<lparr>ss_expired = False, ss_accepts = True, ss_ticks = 0\<rparr> =
     \<lparr>ss_expired = False, ss_accepts = True, ss_ticks = 1\<rparr>"
  by (simp add: Tick_def one_snode_def endpoint_defs)

lemma alive_snoc:
  "alive ll now k' (xs @ [(k, p, e)]) =
     alive ll now k' xs @ (if k = k' \<and> \<not> ep_LooksDead ll e now then [(k, p, e)] else [])"
  by (simp add: alive_def)

lemma alive_other:
  "k \<noteq> k' \<Longrightarrow> alive ll now k' (xs @ [(k, p, e)]) = alive ll now k' xs"
  by (simp add: alive_def)

lemma chosen_ok_none:
  assumes ok: "chosen_ok ll now seen0 ch" and n: "ch k = None"
  shows "chosen_ok ll now (seen0 @ [(k, p, e)])
    (if \<not> ep_LooksDead ll e now then ch(k \<mapsto> Some p) else ch)"
proof -
  from ok n have empty: "alive ll now k seen0 = []"
    unfolding chosen_ok_def by (metis option.distinct(1))
  show ?thesis
    unfolding chosen_ok_def
  proof (intro allI)
    fix k'
    show "(alive ll now k' (seen0 @ [(k, p, e)]) = [] \<longrightarrow>
           (if \<not> ep_LooksDead ll e now then ch(k \<mapsto> Some p) else ch) k' = None) \<and>
          (alive ll now k' (seen0 @ [(k, p, e)]) \<noteq> [] \<longrightarrow>
           (\<exists>pa ea. (k', pa, ea) \<in> set (alive ll now k' (seen0 @ [(k, p, e)])) \<and>
              (if \<not> ep_LooksDead ll e now then ch(k \<mapsto> Some p) else ch) k' = Some (Some pa) \<and>
              (\<forall>(k'', p', e') \<in> set (alive ll now k' (seen0 @ [(k, p, e)])).
                  createdAt ll e' \<le> createdAt ll ea)))"
    proof (cases "k' = k")
      case True
      show ?thesis
      proof (cases "ep_LooksDead ll e now")
        case dead: True
        with True empty n show ?thesis
          by (simp add: alive_snoc)
      next
        case False
        with True empty show ?thesis
          by (simp add: alive_snoc)
      qed
    next
      case False
      then have "alive ll now k' (seen0 @ [(k, p, e)]) = alive ll now k' seen0"
        by (simp add: alive_other)
      with False ok show ?thesis
        unfolding chosen_ok_def by simp
    qed
  qed
qed

lemma chosen_ok_some:
  assumes ok: "chosen_ok ll now seen0 ch"
    and c: "ch k = Some (Some p0)"
    and m: "(k, p0, e0) \<in> set (alive ll now k seen0)"
    and mx: "\<forall>(k', p', e') \<in> set (alive ll now k seen0). createdAt ll e' \<le> createdAt ll e0"
  shows "chosen_ok ll now (seen0 @ [(k, p, e)])
    (if createdAt ll e0 < createdAt ll e
     then (if \<not> ep_LooksDead ll e now then ch(k \<mapsto> Some p) else ch) else ch)"
  unfolding chosen_ok_def
proof (intro allI)
  fix k'
  let ?ch = "if createdAt ll e0 < createdAt ll e
     then (if \<not> ep_LooksDead ll e now then ch(k \<mapsto> Some p) else ch) else ch"
  show "(alive ll now k' (seen0 @ [(k, p, e)]) = [] \<longrightarrow> ?ch k' = None) \<and>
        (alive ll now k' (seen0 @ [(k, p, e)]) \<noteq> [] \<longrightarrow>
         (\<exists>pa ea. (k', pa, ea) \<in> set (alive ll now k' (seen0 @ [(k, p, e)])) \<and>
            ?ch k' = Some (Some pa) \<and>
            (\<forall>(k'', p', e') \<in> set (alive ll now k' (seen0 @ [(k, p, e)])).
                createdAt ll e' \<le> createdAt ll ea)))"
  proof (cases "k' = k")
    case False
    then have "alive ll now k' (seen0 @ [(k, p, e)]) = alive ll now k' seen0"
      by (simp add: alive_other)
    with False ok show ?thesis
      unfolding chosen_ok_def by simp
  next
    case True
    from m have ne: "alive ll now k seen0 \<noteq> []"
      by auto
    show ?thesis
    proof (cases "createdAt ll e0 < createdAt ll e \<and> \<not> ep_LooksDead ll e now")
      case newer: True
      have "\<forall>(k'', p', e') \<in> set (alive ll now k seen0). createdAt ll e' \<le> createdAt ll e"
        using mx newer by (auto intro: order_trans less_imp_le)
      with newer have "(k, p, e) \<in> set (alive ll now k (seen0 @ [(k, p, e)])) \<and>
          (\<forall>(k'', p', e') \<in> set (alive ll now k (seen0 @ [(k, p, e)])).
              createdAt ll e' \<le> createdAt ll e)"
        by (simp add: alive_snoc)
      then have "\<exists>pa ea. (k, pa, ea) \<in> set (alive ll now k (seen0 @ [(k, p, e)])) \<and>
          (ch(k \<mapsto> Some p)) k = Some (Some pa) \<and>
          (\<forall>(k'', p', e') \<in> set (alive ll now k (seen0 @ [(k, p, e)])).
              createdAt ll e' \<le> createdAt ll ea)"
        by (intro exI [of _ p] exI [of _ e]) simp
      moreover have "alive ll now k (seen0 @ [(k, p, e)]) \<noteq> []"
        using newer by (simp add: alive_snoc)
      moreover have "?ch = ch(k \<mapsto> Some p)"
        using newer by simp
      ultimately show ?thesis
        unfolding True by simp
    next
      case False
      then have ch: "?ch = ch"
        by auto
      from False have le: "\<not> ep_LooksDead ll e now \<longrightarrow> createdAt ll e \<le> createdAt ll e0"
        by auto
      have "(k, p0, e0) \<in> set (alive ll now k (seen0 @ [(k, p, e)])) \<and>
          ch k = Some (Some p0) \<and>
          (\<forall>(k'', p', e') \<in> set (alive ll now k (seen0 @ [(k, p, e)])).
              createdAt ll e' \<le> createdAt ll e0)"
        using m c mx le by (auto simp: alive_snoc)
      then show ?thesis
        unfolding ch True using ne by (auto simp: alive_snoc)
    qed
  qed
qed

lemma addresses_simps:
  "addresses [] = []"
  "addresses ((k, p, e) # xs) = p # addresses xs"
  "addresses (xs @ ys) = addresses xs @ addresses ys"
  "addresses (map (ticked ll now) xs) = addresses xs"
  "map fst (map snd xs) = addresses xs"
  by (simp_all add: addresses_def ticked_def split_def)

lemma deref_distinct:
  assumes d: "distinct (addresses (seen0 @ rest))" and m: "(k, p, e) \<in> set seen0"
  shows "deref (map (ticked ll now) seen0 @ rest) p = Some (ep_Tick ll now e)"
proof -
  have "map fst (map snd (map (ticked ll now) seen0 @ rest)) = addresses (seen0 @ rest)"
    by (simp only: addresses_simps)
  with d have d': "distinct (map fst (map snd (map (ticked ll now) seen0 @ rest)))"
    by (simp only:)
  have "snd (ticked ll now (k, p, e)) = (p, ep_Tick ll now e)"
    by (simp add: ticked_def)
  with m have "(p, ep_Tick ll now e) \<in> (\<lambda>x. snd (ticked ll now x)) ` set seen0"
    by (metis image_eqI)
  then have "(p, ep_Tick ll now e) \<in> set (map snd (map (ticked ll now) seen0 @ rest))"
    by (simp add: image_image)
  from map_of_is_SomeI [OF d' this] show ?thesis
    by (simp add: deref_def)
qed

lemma pick_chosen_ok:
  assumes cr: "\<forall>e. createdAt ll (ep_Tick ll now e) = createdAt ll e"
  shows "distinct (addresses (seen0 @ todo)) \<Longrightarrow> chosen_ok ll now seen0 ch \<Longrightarrow>
    \<exists>ch'. pick_chosen ll now (map (ticked ll now) seen0) todo ch =
        Some (ch', map (ticked ll now) (seen0 @ todo)) \<and>
      chosen_ok ll now (seen0 @ todo) ch'"
proof (induction todo arbitrary: seen0 ch)
  case Nil
  then show ?case by simp
next
  case (Cons x todo)
  obtain k p e where x: "x = (k, p, e)"
    by (cases x)
  let ?seen1 = "seen0 @ [(k, p, e)]"
  from Cons.prems(1) have d1: "distinct (addresses (?seen1 @ todo))"
    by (simp add: x addresses_simps)
  have step: "\<And>ch1. chosen_ok ll now ?seen1 ch1 \<Longrightarrow>
      \<exists>ch'. pick_chosen ll now (map (ticked ll now) seen0 @ [(k, p, ep_Tick ll now e)]) todo ch1 =
          Some (ch', map (ticked ll now) (seen0 @ x # todo)) \<and>
        chosen_ok ll now (seen0 @ x # todo) ch'"
    using Cons.IH [OF d1] by (simp add: x ticked_def)
  show ?case
  proof (cases "ch k")
    case None
    from step [OF chosen_ok_none [OF Cons.prems(2) None, of p e]] None show ?thesis
      by (simp add: x)
  next
    case (Some q)
    with Cons.prems(2) have ne: "alive ll now k seen0 \<noteq> []"
      unfolding chosen_ok_def by (metis option.distinct(1))
    with Cons.prems(2) obtain p0 e0 where b: "(k, p0, e0) \<in> set (alive ll now k seen0)"
      "ch k = Some (Some p0)"
      "\<forall>(k', p', e') \<in> set (alive ll now k seen0). createdAt ll e' \<le> createdAt ll e0"
      unfolding chosen_ok_def by blast
    from b(1) have "(k, p0, e0) \<in> set seen0"
      by (simp add: alive_def)
    from deref_distinct [OF _ this, of "(k, p, e) # todo" ll now] Cons.prems(1)
    have dr: "deref (map (ticked ll now) seen0 @ (k, p, e) # todo) p0 = Some (ep_Tick ll now e0)"
      by (simp add: x)
    from step [OF chosen_ok_some [OF Cons.prems(2) b(2) b(1) b(3), of p e]] b(2) dr cr
    show ?thesis
      by (simp add: x)
  qed
qed

lemma pick_chosen_from_empty:
  assumes "distinct (addresses xs)"
    and "\<forall>e. createdAt ll (ep_Tick ll now e) = createdAt ll e"
  shows "\<exists>ch. pick_chosen ll now [] xs Map.empty = Some (ch, map (ticked ll now) xs) \<and>
      chosen_ok ll now xs ch"
proof -
  have ok0: "chosen_ok ll now [] Map.empty"
    by (simp add: chosen_ok_def alive_def)
  from assms(1) have d: "distinct (addresses ([] @ xs))"
    by simp
  have "\<exists>ch'. pick_chosen ll now (map (ticked ll now) []) xs Map.empty =
        Some (ch', map (ticked ll now) ([] @ xs)) \<and>
      chosen_ok ll now ([] @ xs) ch'"
    using assms(2) d ok0 by (rule pick_chosen_ok)
  then show ?thesis
    by simp
qed

lemma Tick_chosen_survivors:
  assumes d: "distinct (addresses (m_ActiveExits s))"
    and cr: "\<forall>e. createdAt ll (ep_Tick ll now e) = createdAt ll e"
    and xs: "xs = filter (\<lambda>(k, p, e). \<not> ep_IsExpired ll e now) (m_ActiveExits s)"
  shows "\<exists>s'. Tick ll s now = Some s' \<and>
    (\<forall>k. (alive ll now k xs = [] \<longrightarrow> m_ChosenExits s' k = None) \<and>
         (alive ll now k xs \<noteq> [] \<longrightarrow>
            (\<exists>p e. (k, p, e) \<in> set (alive ll now k xs) \<and>
               m_ChosenExits s' k = Some (Some p) \<and>
               (k, p, ep_Tick ll now e) \<in> set (m_ActiveExits s') \<and>
               (\<forall>(k', p', e') \<in> set (alive ll now k xs). createdAt ll e' \<le> createdAt ll e))))"
proof -
  have "distinct (addresses xs)"
    using d unfolding addresses_def xs by (rule distinct_map_filter)
  from pick_chosen_from_empty [OF this cr]
  obtain ch where both:
    "pick_chosen ll now [] xs Map.empty = Some (ch, map (ticked ll now) xs) \<and>
     chosen_ok ll now xs ch" ..
  from both have pc: "pick_chosen ll now [] xs Map.empty = Some (ch, map (ticked ll now) xs)"
    by (rule conjunct1)
  from both have ok: "chosen_ok ll now xs ch"
    by (rule conjunct2)
  define s' where "s' = s\<lparr>m_SNodeSessions :=
      filter (\<lambda>(k, sn). \<not> sn_IsExpired ll sn now) (m_SNodeSessions s),
    m_ActiveExits := map (ticked ll now) xs, m_ChosenExits := ch\<rparr>"
  have t: "Tick ll s now = Some s'"
    using pc unfolding xs by (simp add: Tick_def s'_def xs)
  have mem: "\<And>k p e. (k, p, e) \<in> set (alive ll now k xs) \<Longrightarrow>
      (k, p, ep_Tick ll now e) \<in> set (m_ActiveExits s')"
  proof -
    fix k p e
    assume "(k, p, e) \<in> set (alive ll now k xs)"
    then have "(k, p, e) \<in> set xs"
      by (simp add: alive_def)
    then have "ticked ll now (k, p, e) \<in> set (map (ticked ll now) xs)"
      by (metis image_eqI set_map)
    then show "(k, p, ep_Tick ll now e) \<in> set (m_ActiveExits s')"
      by (simp add: s'_def ticked_def)
  qed
  have c: "m_ChosenExits s' = ch"
    by (simp add: s'_def)
  have "\<forall>k. (alive ll now k xs = [] \<longrightarrow> m_ChosenExits s' k = None) \<and>
         (alive ll now k xs \<noteq> [] \<longrightarrow>
            (\<exists>p e. (k, p, e) \<in> set (alive ll now k xs) \<and>
               m_ChosenExits s' k = Some (Some p) \<and>
               (k, p, ep_Tick ll now e) \<in> set (m_ActiveExits s') \<and>
               (\<forall>(k', p', e') \<in> set (alive ll now k xs). createdAt ll e' \<le> createdAt ll e)))"
  proof (intro allI conjI impI)
    fix k
    assume "alive ll now k xs = []"
    with ok show "m_ChosenExits s' k = None"
      unfolding chosen_ok_def c by simp
  next
    fix k
    assume "alive ll now k xs \<noteq> []"
    with ok obtain p e where b: "(k, p, e) \<in> set (alive ll now k xs)"
      "ch k = Some (Some p)"
      "\<forall>(k', p', e') \<in> set (alive ll now k xs). createdAt ll e' \<le> createdAt ll e"
      unfolding chosen_ok_def by blast
    from b mem [OF b(1)]
    show "\<exists>p e. (k, p, e) \<in> set (alive ll now k xs) \<and>
               m_ChosenExits s' k = Some (Some p) \<and>
               (k, p, ep_Tick ll now e) \<in> set (m_ActiveExits s') \<and>
               (\<forall>(k', p', e') \<in> set (alive ll now k xs). createdAt ll e' \<le> createdAt ll e)"
      unfolding c by (intro exI [of _ p] exI [of _ e]) simp
  qed
  with t show ?thesis
    by (intro exI [of _ s']) simp
qed




subsection \<open>Flush\<close>

lemma snode_stage_taken:
  assumes "pk \<in> m_SNodeKeys s" and "map_of (m_SNodeSessions s) pk = Some sn"
    and "sn_QueueUpstreamTraffic ll pkt (ExitPadSize ll) sn = (True, sn')"
  shows "snode_stage ll s pkt pk = (True, s\<lparr>m_SNodeSessions := assign (m_SNodeSessions s) pk sn'\<rparr>)"
  using assms by (simp add: snode_stage_def)

lemma snode_stage_not_taken:
  assumes "\<not> (\<exists>sn. pk \<in> m_SNodeKeys s \<and> map_of (m_SNodeSessions s) pk = Some sn \<and>
      fst (sn_QueueUpstreamTraffic ll pkt (ExitPadSize ll) sn))"
  shows "fst (snode_stage ll s pkt pk) = False"
  using assms by (simp add: snode_stage_def split_def split: option.splits)

lemma snode_stage_exits:
  "m_ChosenExits (snd (snode_stage ll s pkt pk)) = m_ChosenExits s"
  "m_ActiveExits (snd (snode_stage ll s pkt pk)) = m_ActiveExits s"
  by (simp_all add: snode_stage_def split_def Let_def split: option.splits)

lemma exit_stage_cases:
  "exit_stage ll s pkt pk =
     (case m_ChosenExits s pk of
        Some (Some p) \<Rightarrow>
          (case deref (m_ActiveExits s) p of
             None \<Rightarrow> None
           | Some e \<Rightarrow>
               Some (if fst (ep_QueueInboundTraffic ll (Buffer pkt) e)
                     then To_exit pk p else Warn_overloaded pk,
                     s\<lparr>m_ActiveExits := store (m_ActiveExits s) p
                          (snd (ep_QueueInboundTraffic ll (Buffer pkt) e))\<rparr>))
      | _ \<Rightarrow> Some (Warn_no_working_endpoints pk, s\<lparr>m_ChosenExits := (m_ChosenExits s)(pk \<mapsto> None)\<rparr>))"
  by (simp add: exit_stage_def index_default_def split_def fun_upd_idem split: option.splits)

lemma addresses_store:
  "addresses (store xs p e') = addresses xs"
  by (induction xs p e' rule: store.induct) (simp_all add: addresses_def)

lemma deref_live:
  "p \<in> set (addresses xs) \<Longrightarrow> \<exists>e. deref xs p = Some e"
proof -
  assume "p \<in> set (addresses xs)"
  then have "p \<in> fst ` set (map snd xs)"
    by (simp add: addresses_simps(5) [symmetric] del: map_map)
  then have "map_of (map snd xs) p \<noteq> None"
    by (simp only: map_of_eq_None_iff not_not)
  then show ?thesis
    by (simp add: deref_def)
qed

lemma chosen_live_exit_stage:
  assumes live: "chosen_live s"
  shows "\<exists>ev s'. exit_stage ll s pkt pk = Some (ev, s') \<and> chosen_live s'"
proof (cases "\<exists>p. m_ChosenExits s pk = Some (Some p)")
  case True
  then obtain p where p: "m_ChosenExits s pk = Some (Some p)" ..
  with live have "p \<in> set (addresses (m_ActiveExits s))"
    by (simp add: chosen_live_def)
  from deref_live [OF this] obtain e where e: "deref (m_ActiveExits s) p = Some e" ..
  have "chosen_live (s\<lparr>m_ActiveExits := store (m_ActiveExits s) p
      (snd (ep_QueueInboundTraffic ll (Buffer pkt) e))\<rparr>)"
    using live by (simp add: chosen_live_def addresses_store)
  with p e show ?thesis
    by (simp add: exit_stage_cases)
next
  case False
  then have c: "exit_stage ll s pkt pk =
      Some (Warn_no_working_endpoints pk, s\<lparr>m_ChosenExits := (m_ChosenExits s)(pk \<mapsto> None)\<rparr>)"
    by (simp add: exit_stage_cases split: option.splits)
  have "chosen_live (s\<lparr>m_ChosenExits := (m_ChosenExits s)(pk \<mapsto> None)\<rparr>)"
    using live by (simp add: chosen_live_def)
  with c show ?thesis
    by simp
qed

lemma chosen_live_snode_stage:
  "chosen_live s \<Longrightarrow> chosen_live (snd (snode_stage ll s pkt pk))"
  by (simp add: chosen_live_def snode_stage_exits)

lemma chosen_live_Flush_pkt:
  assumes live: "chosen_live s"
  shows "\<exists>ev s'. Flush_pkt ll s pkt = Some (ev, s') \<and> chosen_live s'"
proof (cases "m_IPToKey s (dst pkt)")
  case None
  with live show ?thesis
    by (simp add: Flush_pkt_def)
next
  case (Some pk)
  obtain sent s1 where st: "snode_stage ll s pkt pk = (sent, s1)"
    by (cases "snode_stage ll s pkt pk")
  with chosen_live_snode_stage [OF live, of ll pkt pk] have l1: "chosen_live s1"
    by simp
  show ?thesis
  proof (cases sent)
    case True
    with Some st l1 show ?thesis
      by (simp add: Flush_pkt_def)
  next
    case False
    with Some st chosen_live_exit_stage [OF l1, of ll pkt pk] show ?thesis
      by (simp add: Flush_pkt_def)
  qed
qed

lemma chosen_live_Process:
  "chosen_live s \<Longrightarrow>
   \<exists>evs s'. Process ll s pkts = Some (evs, s') \<and> length evs = length pkts \<and> chosen_live s'"
proof (induction pkts arbitrary: s)
  case Nil
  then show ?case by simp
next
  case (Cons pkt pkts)
  from chosen_live_Flush_pkt [OF Cons.prems, of ll pkt]
  obtain ev s1 where f: "Flush_pkt ll s pkt = Some (ev, s1)" and l1: "chosen_live s1"
    by blast
  from Cons.IH [OF l1] obtain evs s2 where "Process ll s1 pkts = Some (evs, s2)"
    "length evs = length pkts" "chosen_live s2"
    by blast
  with f show ?case
    by simp
qed

lemma Flush_after_Process:
  assumes "Process ll s (m_InetToNetwork s) = Some (evs, s1)"
  shows "Flush ll s =
     Some (evs @ fst (FlushExits ll (m_ActiveExits s1)) @ fst (FlushSNodes ll (m_SNodeSessions s1)),
           s1\<lparr>m_InetToNetwork := [],
              m_ActiveExits := snd (FlushExits ll (m_ActiveExits s1)),
              m_SNodeSessions := snd (FlushSNodes ll (m_SNodeSessions s1))\<rparr>)"
  using assms by (simp add: Flush_def split_def Let_def)

text \<open>
  Where every pointer in \<^verbatim>\<open>m_ChosenExits\<close> that is not null points to a session the
  endpoint owns, \<^verbatim>\<open>Flush\<close> dispatches the packet it visits (\<open>Flush_pkt\<close>) as follows. If
  the destination is not in \<^verbatim>\<open>m_IPToKey\<close> the packet is dropped with a warning and the
  endpoint, so every session, is as before. Otherwise, with \<open>pk\<close> the mapped key: if
  \<open>pk\<close> is in \<^verbatim>\<open>m_SNodeKeys\<close> and \<^verbatim>\<open>m_SNodeSessions\<close> has a session for it that takes the
  packet, the packet has gone to that session and nowhere else. If not, the packet is
  dropped with the warning "no working endpoints" when \<^verbatim>\<open>m_ChosenExits[pk]\<close> is missing
  or null, and otherwise offered to the session \<^verbatim>\<open>m_ChosenExits[pk]\<close> points to, which
  receives it or, refusing it, causes the warning "overloaded"; no other session changes.
  \<^verbatim>\<open>Flush\<close> visits every queued packet, one event each, then flushes every session and
  returns with the queue empty.
\<close>

lemma Flush_dispatch:
  assumes "chosen_live s"
  shows
    "(m_IPToKey s (dst pkt) = None \<longrightarrow>
        Flush_pkt ll s pkt = Some (Warn_no_session (dst pkt), s)) \<and>
     (\<forall>pk. m_IPToKey s (dst pkt) = Some pk \<longrightarrow>
        (\<forall>sn sn'. pk \<in> m_SNodeKeys s \<and> map_of (m_SNodeSessions s) pk = Some sn \<and>
            sn_QueueUpstreamTraffic ll pkt (ExitPadSize ll) sn = (True, sn') \<longrightarrow>
            Flush_pkt ll s pkt =
              Some (To_snode pk, s\<lparr>m_SNodeSessions := assign (m_SNodeSessions s) pk sn'\<rparr>)) \<and>
        (\<not> (\<exists>sn. pk \<in> m_SNodeKeys s \<and> map_of (m_SNodeSessions s) pk = Some sn \<and>
               fst (sn_QueueUpstreamTraffic ll pkt (ExitPadSize ll) sn)) \<longrightarrow>
           (m_ChosenExits s pk = None \<or> m_ChosenExits s pk = Some None \<longrightarrow>
              Flush_pkt ll s pkt =
                Some (Warn_no_working_endpoints pk,
                      (snd (snode_stage ll s pkt pk))
                        \<lparr>m_ChosenExits := (m_ChosenExits s)(pk \<mapsto> None)\<rparr>)) \<and>
           (\<forall>p. m_ChosenExits s pk = Some (Some p) \<longrightarrow>
              (\<exists>e. deref (m_ActiveExits s) p = Some e \<and>
                 Flush_pkt ll s pkt =
                   Some (if fst (ep_QueueInboundTraffic ll (Buffer pkt) e)
                         then To_exit pk p else Warn_overloaded pk,
                         (snd (snode_stage ll s pkt pk))
                           \<lparr>m_ActiveExits := store (m_ActiveExits s) p
                              (snd (ep_QueueInboundTraffic ll (Buffer pkt) e))\<rparr>))))) \<and>
     (\<exists>evs s1. Process ll s (m_InetToNetwork s) = Some (evs, s1) \<and>
        length evs = length (m_InetToNetwork s) \<and>
        Flush ll s =
          Some (evs @ fst (FlushExits ll (m_ActiveExits s1)) @
                  fst (FlushSNodes ll (m_SNodeSessions s1)),
                s1\<lparr>m_InetToNetwork := [],
                   m_ActiveExits := snd (FlushExits ll (m_ActiveExits s1)),
                   m_SNodeSessions := snd (FlushSNodes ll (m_SNodeSessions s1))\<rparr>))"
proof (intro conjI allI impI)
  assume "m_IPToKey s (dst pkt) = None"
  then show "Flush_pkt ll s pkt = Some (Warn_no_session (dst pkt), s)"
    by (simp add: Flush_pkt_def)
next
  fix pk sn sn'
  assume m: "m_IPToKey s (dst pkt) = Some pk"
    and t: "pk \<in> m_SNodeKeys s \<and> map_of (m_SNodeSessions s) pk = Some sn \<and>
            sn_QueueUpstreamTraffic ll pkt (ExitPadSize ll) sn = (True, sn')"
  from t have "snode_stage ll s pkt pk =
      (True, s\<lparr>m_SNodeSessions := assign (m_SNodeSessions s) pk sn'\<rparr>)"
    by (simp add: snode_stage_taken)
  with m show "Flush_pkt ll s pkt =
      Some (To_snode pk, s\<lparr>m_SNodeSessions := assign (m_SNodeSessions s) pk sn'\<rparr>)"
    by (simp add: Flush_pkt_def)
next
  fix pk
  assume m: "m_IPToKey s (dst pkt) = Some pk"
    and no: "\<not> (\<exists>sn. pk \<in> m_SNodeKeys s \<and> map_of (m_SNodeSessions s) pk = Some sn \<and>
               fst (sn_QueueUpstreamTraffic ll pkt (ExitPadSize ll) sn))"
    and c: "m_ChosenExits s pk = None \<or> m_ChosenExits s pk = Some None"
  obtain sent s1 where st: "snode_stage ll s pkt pk = (sent, s1)"
    by (cases "snode_stage ll s pkt pk")
  with snode_stage_not_taken [OF no] have ns: "sent = False"
    by simp
  from st snode_stage_exits [of ll s pkt pk] have ch: "m_ChosenExits s1 = m_ChosenExits s"
    by simp
  from c ch have "exit_stage ll s1 pkt pk =
      Some (Warn_no_working_endpoints pk, s1\<lparr>m_ChosenExits := (m_ChosenExits s)(pk \<mapsto> None)\<rparr>)"
    by (auto simp: exit_stage_cases)
  with m st ns show "Flush_pkt ll s pkt =
      Some (Warn_no_working_endpoints pk,
            (snd (snode_stage ll s pkt pk))\<lparr>m_ChosenExits := (m_ChosenExits s)(pk \<mapsto> None)\<rparr>)"
    by (simp add: Flush_pkt_def)
next
  fix pk p
  assume m: "m_IPToKey s (dst pkt) = Some pk"
    and no: "\<not> (\<exists>sn. pk \<in> m_SNodeKeys s \<and> map_of (m_SNodeSessions s) pk = Some sn \<and>
               fst (sn_QueueUpstreamTraffic ll pkt (ExitPadSize ll) sn))"
    and c: "m_ChosenExits s pk = Some (Some p)"
  obtain sent s1 where st: "snode_stage ll s pkt pk = (sent, s1)"
    by (cases "snode_stage ll s pkt pk")
  with snode_stage_not_taken [OF no] have ns: "sent = False"
    by simp
  from st snode_stage_exits [of ll s pkt pk] have ch: "m_ChosenExits s1 = m_ChosenExits s"
    and ex: "m_ActiveExits s1 = m_ActiveExits s"
    by simp_all
  from assms c have "p \<in> set (addresses (m_ActiveExits s))"
    by (simp add: chosen_live_def)
  from deref_live [OF this] obtain e where e: "deref (m_ActiveExits s) p = Some e" ..
  from c ch ex e have "exit_stage ll s1 pkt pk =
      Some (if fst (ep_QueueInboundTraffic ll (Buffer pkt) e)
            then To_exit pk p else Warn_overloaded pk,
            s1\<lparr>m_ActiveExits := store (m_ActiveExits s) p
                 (snd (ep_QueueInboundTraffic ll (Buffer pkt) e))\<rparr>)"
    by (simp add: exit_stage_cases)
  with m st ns e show "\<exists>e. deref (m_ActiveExits s) p = Some e \<and>
      Flush_pkt ll s pkt =
        Some (if fst (ep_QueueInboundTraffic ll (Buffer pkt) e)
              then To_exit pk p else Warn_overloaded pk,
              (snd (snode_stage ll s pkt pk))\<lparr>m_ActiveExits := store (m_ActiveExits s) p
                 (snd (ep_QueueInboundTraffic ll (Buffer pkt) e))\<rparr>)"
    by (simp add: Flush_pkt_def)
next
  from chosen_live_Process [OF assms, of ll "m_InetToNetwork s"]
  obtain evs s1 where p: "Process ll s (m_InetToNetwork s) = Some (evs, s1)"
    and l: "length evs = length (m_InetToNetwork s)"
    by blast
  from p l Flush_after_Process [OF p]
  show "\<exists>evs s1. Process ll s (m_InetToNetwork s) = Some (evs, s1) \<and>
      length evs = length (m_InetToNetwork s) \<and>
      Flush ll s =
        Some (evs @ fst (FlushExits ll (m_ActiveExits s1)) @
                fst (FlushSNodes ll (m_SNodeSessions s1)),
              s1\<lparr>m_InetToNetwork := [],
                 m_ActiveExits := snd (FlushExits ll (m_ActiveExits s1)),
                 m_SNodeSessions := snd (FlushSNodes ll (m_SNodeSessions s1))\<rparr>)"
    by blast
qed

text \<open>
  \<^verbatim>\<open>Tick\<close> leaves every pointer it chooses pointing to a session the endpoint owns.
\<close>

lemma Tick_chosen_live:
  assumes "distinct (addresses (m_ActiveExits s))"
    and "\<forall>e. createdAt ll (ep_Tick ll now e) = createdAt ll e"
  shows "\<exists>s'. Tick ll s now = Some s' \<and> chosen_live s'"
proof -
  define xs where "xs = filter (\<lambda>(k, p, e). \<not> ep_IsExpired ll e now) (m_ActiveExits s)"
  from Tick_chosen_survivors [OF assms xs_def]
  obtain s' where t: "Tick ll s now = Some s'"
    and c: "\<forall>k. (alive ll now k xs = [] \<longrightarrow> m_ChosenExits s' k = None) \<and>
         (alive ll now k xs \<noteq> [] \<longrightarrow>
            (\<exists>p e. (k, p, e) \<in> set (alive ll now k xs) \<and>
               m_ChosenExits s' k = Some (Some p) \<and>
               (k, p, ep_Tick ll now e) \<in> set (m_ActiveExits s') \<and>
               (\<forall>(k', p', e') \<in> set (alive ll now k xs). createdAt ll e' \<le> createdAt ll e)))"
    by blast
  have "chosen_live s'"
    unfolding chosen_live_def
  proof (intro allI impI)
    fix k p
    assume a: "m_ChosenExits s' k = Some (Some p)"
    with c have "alive ll now k xs \<noteq> []"
      by auto
    with c obtain p' e where "m_ChosenExits s' k = Some (Some p')"
      "(k, p', ep_Tick ll now e) \<in> set (m_ActiveExits s')"
      by blast
    with a have "(k, p, ep_Tick ll now e) \<in> set (m_ActiveExits s')"
      by simp
    then show "p \<in> set (addresses (m_ActiveExits s'))"
      by (force simp: addresses_def)
  qed
  with t show ?thesis
    by blast
qed

text \<open>
  So it is on the full \<^verbatim>\<open>/30\<close> right after a tick: the four queued packets are dropped,
  delivered to the session of key 1, to that of key 2, and again to that of key 1.
\<close>

lemma ticked_clients_eval:
  "m_ChosenExits ticked_clients = [1 \<mapsto> Some 1, 2 \<mapsto> Some 2]"
  "addresses (m_ActiveExits ticked_clients) = [1, 2]"
  "m_IPToKey ticked_clients 0x0A000007 = None"
  "m_IPToKey ticked_clients 0x0A000003 = Some 2"
  "m_SNodeKeys ticked_clients = {2}"
  "m_SNodeSessions ticked_clients = []"
  by (simp_all add: ticked_clients_def two_clients_def Tick_def deref_def addresses_def
      endpoint_defs)

lemma Flush_ticked_clients:
  "chosen_live ticked_clients \<and>
   map_option fst (Flush simple_ll ticked_clients) =
     Some [Warn_no_session 0x0A000007, To_exit 1 1, To_exit 2 2, To_exit 1 1]"
proof
  show "chosen_live ticked_clients"
    by (simp add: chosen_live_def ticked_clients_eval)
  show "map_option fst (Flush simple_ll ticked_clients) =
      Some [Warn_no_session 0x0A000007, To_exit 1 1, To_exit 2 2, To_exit 1 1]"
    by (simp add: ticked_clients_def two_clients_def Tick_def deref_def Flush_def
        Flush_pkt_def snode_stage_def exit_stage_def endpoint_defs)
qed

lemma one_snode_eval:
  "m_ChosenExits one_snode = Map.empty"
  "m_IPToKey one_snode 0x0A000002 = Some 7"
  "7 \<in> m_SNodeKeys one_snode"
  "map_of (m_SNodeSessions one_snode) 7 = Some \<lparr>ss_expired = False, ss_accepts = True, ss_ticks = 0\<rparr>"
  by (simp_all add: one_snode_def endpoint_defs)

lemma Flush_pkt_one_snode:
  "chosen_live one_snode \<and>
   map_option fst (Flush_pkt simple_ll one_snode \<lparr>dst = 0x0A000002, Buffer = []\<rparr>) =
     Some (To_snode 7)"
proof
  show "chosen_live one_snode"
    by (simp add: chosen_live_def one_snode_eval)
  show "map_option fst (Flush_pkt simple_ll one_snode \<lparr>dst = 0x0A000002, Buffer = []\<rparr>) =
      Some (To_snode 7)"
    by (simp add: Flush_pkt_def snode_stage_def one_snode_eval) (simp add: simple_ll_def)
qed

text \<open>
  C1. \<^verbatim>\<open>Flush\<close> calls through a pointer to a session that no longer exists. On the
  \<^verbatim>\<open>/30\<close>, keys 1 and 2 open sessions, the objects at addresses 1 and 2, and \<^verbatim>\<open>Tick(40)\<close>
  chooses them: \<^verbatim>\<open>m_ChosenExits[1]\<close> is address 1. Key 3 then asks for a session; the pool
  is full, \<^verbatim>\<open>AllocateNewAddress\<close> evicts key 1, and \<^verbatim>\<open>KickIdentOffExit\<close> destroys the
  session of key 1 but leaves \<^verbatim>\<open>m_ChosenExits\<close> alone. Key 1 asks again and gets 10.0.0.3,
  with a new session at address 4. Until the next \<^verbatim>\<open>Tick\<close>, \<^verbatim>\<open>m_ChosenExits[1]\<close> is still
  address 1, where none of the endpoint's sessions is. For a queued packet to 10.0.0.3
  \<^verbatim>\<open>Flush\<close> finds key 1, which is no service node, and calls \<^verbatim>\<open>QueueInboundTraffic\<close>
  through that pointer: the packet is neither delivered to a session nor dropped with a
  warning, and \<^verbatim>\<open>Flush\<close> has no defined result.
\<close>

theorem Flush_stale_chosen_exit:
  "(\<exists>s. Tick simple_ll two_clients 40 = Some s \<and> m_ChosenExits s 1 = Some (Some 1) \<and>
      addresses (m_ActiveExits s) = [1, 2]) \<and>
   m_InetToNetwork stale_chosen = [\<lparr>dst = 0x0A000003, Buffer = []\<rparr>] \<and>
   m_IPToKey stale_chosen 0x0A000003 = Some 1 \<and>
   m_SNodeKeys stale_chosen = {} \<and>
   m_ChosenExits stale_chosen 1 = Some (Some 1) \<and>
   addresses (m_ActiveExits stale_chosen) = [3, 4] \<and>
   deref (m_ActiveExits stale_chosen) 1 = None \<and>
   Flush simple_ll stale_chosen = None"
proof -
  have t: "Tick simple_ll two_clients 40 =
     Some (two_clients\<lparr>
       m_ActiveExits :=
         [(1, 1, \<lparr>se_createdAt = 10, se_expired = False, se_dead = False,
                   se_accepts = True, se_ticks = 1\<rparr>),
          (2, 2, \<lparr>se_createdAt = 20, se_expired = False, se_dead = False,
                   se_accepts = True, se_ticks = 1\<rparr>)],
       m_ChosenExits := [1 \<mapsto> Some 1, 2 \<mapsto> Some 2]\<rparr>)"
    by (simp add: two_clients_def Tick_def deref_def endpoint_defs)
  have a: "\<exists>s. Tick simple_ll two_clients 40 = Some s \<and> m_ChosenExits s 1 = Some (Some 1) \<and>
      addresses (m_ActiveExits s) = [1, 2]"
    by (simp add: t addresses_def)
  have e: "m_InetToNetwork stale_chosen = [\<lparr>dst = 0x0A000003, Buffer = []\<rparr>]"
    "m_IPToKey stale_chosen 0x0A000003 = Some 1"
    "m_SNodeKeys stale_chosen = {}"
    "m_ChosenExits stale_chosen 1 = Some (Some 1)"
    "addresses (m_ActiveExits stale_chosen) = [3, 4]"
    "deref (m_ActiveExits stale_chosen) 1 = None"
    by (simp_all add: stale_chosen_def two_clients_def Tick_def deref_def addresses_def
        endpoint_defs)
  from e(6) have d: "deref (m_ActiveExits stale_chosen) (Suc 0) = None"
    by simp
  have "exit_stage simple_ll stale_chosen \<lparr>dst = 0x0A000003, Buffer = []\<rparr> 1 = None"
    by (simp add: exit_stage_cases e d)
  moreover have "snode_stage simple_ll stale_chosen \<lparr>dst = 0x0A000003, Buffer = []\<rparr> 1 =
      (False, stale_chosen)"
    by (simp add: snode_stage_def e)
  ultimately have "Flush_pkt simple_ll stale_chosen \<lparr>dst = 0x0A000003, Buffer = []\<rparr> = None"
    by (simp add: Flush_pkt_def e)
  then have f: "Flush simple_ll stale_chosen = None"
    by (simp add: Flush_def e)
  from a e f show ?thesis
    by simp
qed

subsection \<open>The identity map without kicks from outside\<close>

lemma inverse_add:
  assumes inv: "\<forall>k ip. m1 k = Some ip \<longleftrightarrow> m2 ip = Some k"
    and a: "m1 pk = None" and b: "m2 found = None"
  shows "\<forall>k ip. (m1(pk \<mapsto> found)) k = Some ip \<longleftrightarrow> (m2(found \<mapsto> pk)) ip = Some k"
proof (intro allI)
  fix k ip
  show "(m1(pk \<mapsto> found)) k = Some ip \<longleftrightarrow> (m2(found \<mapsto> pk)) ip = Some k"
  proof (cases "k = pk")
    case True
    show ?thesis
    proof (cases "ip = found")
      case f: True
      with True show ?thesis by simp
    next
      case False
      from inv a have "m2 ip \<noteq> Some pk"
        by (metis option.distinct(1))
      with True False show ?thesis
        by auto
    qed
  next
    case False
    show ?thesis
    proof (cases "ip = found")
      case True
      from inv b have "m1 k \<noteq> Some found"
        by (metis option.distinct(1))
      with False True show ?thesis
        by auto
    next
      case f: False
      with False inv show ?thesis
        by simp
    qed
  qed
qed

lemma inverse_remove:
  assumes inv: "\<forall>k ip. m1 k = Some ip \<longleftrightarrow> m2 ip = Some k"
    and a: "m1 k0 = Some found"
  shows "\<forall>k ip. (m1(k0 := None)) k = Some ip \<longleftrightarrow> (m2(found := None)) ip = Some k"
proof (intro allI)
  fix k ip
  from inv a have b: "m2 found = Some k0"
    by simp
  show "(m1(k0 := None)) k = Some ip \<longleftrightarrow> (m2(found := None)) ip = Some k"
  proof (cases "k = k0")
    case True
    from inv a have "m2 ip = Some k0 \<Longrightarrow> ip = found"
      by (metis option.inject)
    with True show ?thesis
      by auto
  next
    case False
    from inv b have "m1 k = Some found \<Longrightarrow> k = k0"
      by (metis option.inject)
    with False inv show ?thesis
      by auto
  qed
qed

lemma inverse_inv_GetIPForIdent:
  assumes p: "pool_inv s" and a: "activity_inv s" and i: "inverse_inv s"
  shows "inverse_inv (snd (GetIPForIdent s pk now))"
proof -
  from i have inv: "\<forall>k ip. m_KeyToIP s k = Some ip \<longleftrightarrow> m_IPToKey s ip = Some k"
    and dm: "dom (m_IPToKey s) = fst ` set (m_IPActivity s)"
    by (simp_all add: inverse_inv_def)
  from a have lt: "\<forall>(ip, t) \<in> set (m_IPActivity s). t < llarp_time_max"
    by (simp add: activity_inv_def)
  show ?thesis
  proof (cases "m_KeyToIP s pk")
    case (Some ip)
    note f = GetIPForIdent_mapped_fields [OF Some]
    from Some inv have "ip \<in> dom (m_IPToKey s)"
      by auto
    with dm have "insert ip (fst ` set (m_IPActivity s)) = dom (m_IPToKey s)"
      by auto
    with inv show ?thesis
      unfolding inverse_inv_def f(2,3,4) fst_set_assign by simp
  next
    case None
    obtain found s1 where al: "AllocateNewAddress s = (found, s1)"
      by (cases "AllocateNewAddress s")
    note f = GetIPForIdent_unmapped_fields [OF None al]
    have s1: "(\<forall>k ip. m_KeyToIP s1 k = Some ip \<longleftrightarrow> m_IPToKey s1 ip = Some k) \<and>
      m_KeyToIP s1 pk = None \<and> m_IPToKey s1 found = None \<and>
      insert found (dom (m_IPToKey s1)) = insert found (fst ` set (m_IPActivity s1))"
    proof (cases "m_NextAddr s < m_HigestAddr s")
      case True
      from AllocateNewAddress_fresh [OF True] al
      have e: "s1 = s\<lparr>m_NextAddr := m_NextAddr s + 1\<rparr>" and fo: "found = m_NextAddr s + 1"
        by simp_all
      from True have up: "m_NextAddr s < m_NextAddr s + 1"
        by (rule word_less_succ)
      have "found \<notin> dom (m_IPToKey s)"
      proof
        assume "found \<in> dom (m_IPToKey s)"
        with p have "found \<le> m_NextAddr s"
          unfolding pool_inv_def by blast
        with up fo show False
          by simp
      qed
      then have "m_IPToKey s found = None"
        by auto
      with inv None dm show ?thesis
        by (simp add: e)
    next
      case False
      show ?thesis
      proof (cases "m_IPActivity s = []")
        case True
        with dm have "dom (m_IPToKey s) = {}"
          by simp
        then have e2: "m_IPToKey s = Map.empty"
          by simp
        with inv have "\<And>k. m_KeyToIP s k = None"
          by (metis option.exhaust option.distinct(1))
        then have e1: "m_KeyToIP s = Map.empty"
          by (simp add: fun_eq_iff)
        from AllocateNewAddress_evict_empty [OF False True e1] al
        have z: "found = 0" "m_IPToKey s1 0 = None"
          by simp_all
        from al False True e1 e2 have "m_KeyToIP s1 = Map.empty \<and> m_IPToKey s1 = Map.empty \<and>
            m_IPActivity s1 = []"
          by (auto simp: AllocateNewAddress_def KickIdentOffExit_def index_default_def Let_def
              llarp_time_max_def)
        with z show ?thesis
          by simp
      next
        case ne: False
        from AllocateNewAddress_evict_mem [OF False ne lt] al dm
        have "found \<in> dom (m_IPToKey s)"
          by simp
        then obtain k0 where k0: "m_IPToKey s found = Some k0"
          by auto
        with inv have k1: "m_KeyToIP s k0 = Some found"
          by simp
        from al have fo: "found = fst (oldest (m_IPActivity s) (0, llarp_time_max))"
          using AllocateNewAddress_found [OF False] by simp
        from k0 have "m_IPToKey s (fst (oldest (m_IPActivity s) (0, llarp_time_max))) = Some k0"
          by (simp only: fo [symmetric])
        from AllocateNewAddress_evicts [OF False this] al
        have e: "s1 = KickIdentOffExit s k0"
          by simp
        have m1: "m_KeyToIP s1 = (m_KeyToIP s)(k0 := None)"
          and m2: "m_IPToKey s1 = (m_IPToKey s)(found := None)"
          and ac: "m_IPActivity s1 = m_IPActivity s"
          unfolding e by (simp_all add: KickIdentOffExit_fields(1) KickIdentOffExit_fields(2) [OF k1]
              KickIdentOffExit_pool_fields)
        from inverse_remove [OF inv k1]
        have "\<forall>k ip. m_KeyToIP s1 k = Some ip \<longleftrightarrow> m_IPToKey s1 ip = Some k"
          unfolding m1 m2 .
        moreover from None have "m_KeyToIP s1 pk = None"
          unfolding m1 by simp
        moreover have "m_IPToKey s1 found = None"
          unfolding m2 by simp
        moreover from dm have
          "insert found (dom (m_IPToKey s1)) = insert found (fst ` set (m_IPActivity s1))"
          unfolding m2 ac by auto
        ultimately show ?thesis
          by blast
      qed
    qed
    then have inv1: "\<forall>k ip. m_KeyToIP s1 k = Some ip \<longleftrightarrow> m_IPToKey s1 ip = Some k"
      and n1: "m_KeyToIP s1 pk = None" and n2: "m_IPToKey s1 found = None"
      and d1: "insert found (dom (m_IPToKey s1)) = insert found (fst ` set (m_IPActivity s1))"
      by blast+
    from inverse_add [OF inv1 n1 n2] d1 n2 show ?thesis
      unfolding inverse_inv_def f(2,3,4) by (simp add: fst_set_assign)
  qed
qed

lemma inverse_inv_im_step:
  assumes p: "pool_inv s" and a: "activity_inv s" and i: "inverse_inv s"
    and nk: "\<not> is_kick c"
  shows "inverse_inv (im_step ll s c)"
proof (cases c)
  case (Call_GetIPForIdent pk now)
  with inverse_inv_GetIPForIdent [OF p a i, of pk now] show ?thesis
    by simp
next
  case (Call_AllocateNewExit pk path wantInternet prevIsRouter now p')
  show ?thesis
  proof (cases "wantInternet \<and> \<not> m_PermitExit s")
    case True
    with i Call_AllocateNewExit show ?thesis
      by (simp add: AllocateNewExit_refused)
  next
    case False
    note f = AllocateNewExit_fields [OF False, of ll pk path prevIsRouter now p']
    from inverse_inv_GetIPForIdent [OF p a i, of pk now] show ?thesis
      unfolding Call_AllocateNewExit im_step.simps inverse_inv_def f .
  qed
next
  case (Call_ObtainServiceNodeIP pk now)
  note f = ObtainServiceNodeIP_fields [of ll s pk now]
  from inverse_inv_GetIPForIdent [OF p a i, of pk now] show ?thesis
    unfolding Call_ObtainServiceNodeIP im_step.simps inverse_inv_def f .
next
  case (Call_KickIdentOffExit pk)
  with nk show ?thesis
    by simp
qed

lemma inverse_inv_im_run:
  "pool_inv s \<Longrightarrow> activity_inv s \<Longrightarrow> inverse_inv s \<Longrightarrow>
   \<forall>c \<in> set calls. \<not> is_kick c \<and> (\<forall>t. call_time c = Some t \<longrightarrow> t < llarp_time_max) \<Longrightarrow>
   inverse_inv (im_run ll s calls)"
proof (induction calls arbitrary: s)
  case Nil
  then show ?case
    by (simp add: im_run_def)
next
  case (Cons c calls)
  from Cons.prems(4) have nk: "\<not> is_kick c"
    and t: "\<forall>t. call_time c = Some t \<longrightarrow> t < llarp_time_max"
    and rest: "\<forall>c \<in> set calls. \<not> is_kick c \<and> (\<forall>t. call_time c = Some t \<longrightarrow> t < llarp_time_max)"
    by simp_all
  from pool_inv_im_step [OF Cons.prems(1), of ll c] have p: "pool_inv (im_step ll s c)"
    by simp
  from activity_inv_im_step [OF Cons.prems(1,2) t] have a: "activity_inv (im_step ll s c)" .
  from inverse_inv_im_step [OF Cons.prems(1,2,3) nk] have i: "inverse_inv (im_step ll s c)" .
  from Cons.IH [OF p a i rest] show ?case
    by (simp add: im_run_def)
qed

lemma inverse_inv_configured:
  "constructed s0 \<Longrightarrow> inverse_inv (SetOption_ifaddr s0 ifaddr nm)"
  by (simp add: constructed_def inverse_inv_def SetOption_ifaddr_def)

text \<open>
  As long as \<^verbatim>\<open>KickIdentOffExit\<close> is only reached from \<^verbatim>\<open>AllocateNewAddress\<close>, the two maps
  stay inverses of each other.
\<close>

lemma inverse_without_kicks:
  assumes "constructed s0"
    and "\<forall>c \<in> set calls. \<not> is_kick c \<and> (\<forall>t. call_time c = Some t \<longrightarrow> t < llarp_time_max)"
    and "s = im_run ll (SetOption_ifaddr s0 ifaddr nm) calls"
  shows "\<forall>k ip. m_KeyToIP s k = Some ip \<longleftrightarrow> m_IPToKey s ip = Some k"
proof -
  from inverse_inv_im_run [OF pool_inv_configured [OF assms(1)]
      activity_inv_configured [OF assms(1)] inverse_inv_configured [OF assms(1)] assms(2),
      where ll = ll] assms(3)
  have "inverse_inv s"
    by simp
  then show ?thesis
    by (simp add: inverse_inv_def)
qed

text \<open>
  C4. On the \<^verbatim>\<open>/30\<close>, keys 1 and 2 take the two addresses, key 1 is kicked and key 3 asks
  for an address. \<^verbatim>\<open>AllocateNewAddress\<close> picks the address of the kicked key, which
  \<^verbatim>\<open>m_IPToKey\<close> no longer holds: \<^verbatim>\<open>m_IPToKey[found]\<close> inserts the zero key for it,
  \<^verbatim>\<open>KickIdentOffExit\<close> of the zero key erases address 0 instead, and the second
  \<^verbatim>\<open>emplace\<close> of \<^verbatim>\<open>GetIPForIdent\<close> fails. Key 3 is then mapped to \<^verbatim>\<open>10.0.0.2\<close> while
  \<^verbatim>\<open>10.0.0.2\<close> is mapped to the zero key: the two maps are not inverses.
\<close>

theorem inverse_broken_after_kick:
  "m_KeyToIP kicked_then_reused 3 = Some 0x0A000002 \<and>
   m_IPToKey kicked_then_reused 0x0A000002 = Some 0"
  by (simp add: kicked_then_reused_def endpoint_defs)

end
